theory Spec2Isabelle
  imports Complex_Main "HOL-Library.Sublist" "HOL-Library.AList"
begin

section \<open>Text: characters, whitespace and case\<close>

text \<open>
  The program works on Python \<open>str\<close> values. A text is modelled as a \<open>string\<close>, one
  \<open>char\<close> per code point, which covers the code points 0 to 255. In that range the
  characters for which \<open>str.isspace\<close> holds, which are also the ones the regular
  expression class \<open>\s\<close> matches and the ones \<open>str.strip()\<close> removes, are the twelve
  listed in \<open>isspace\<close>; the only characters that match an ASCII letter of a pattern
  under \<open>re.IGNORECASE\<close> are that letter in its two cases. Beyond that range Python
  has more whitespace characters, and under \<open>re.IGNORECASE\<close> the letter \<open>i\<close> of a
  pattern also matches the code points U+0130 and U+0131; texts with such characters are
  outside the model, and nothing below speaks about them.
\<close>

definition isspace :: "char \<Rightarrow> bool" where
  "isspace c = (c \<in> set [CHR 0x09, CHR 0x0A, CHR 0x0B, CHR 0x0C, CHR 0x0D,
                          CHR 0x1C, CHR 0x1D, CHR 0x1E, CHR 0x1F, CHR 0x20,
                          CHR 0x85, CHR 0xA0])"

definition strip :: "string \<Rightarrow> string" where
  \<comment> \<open>\<open>s.strip()\<close>: leading and trailing whitespace removed\<close>
  "strip s = rev (dropWhile isspace (rev (dropWhile isspace s)))"

definition lower :: "char \<Rightarrow> char" where
  \<comment> \<open>\<open>A\<close> to \<open>Z\<close> (65 to 90) become \<open>a\<close> to \<open>z\<close>\<close>
  "lower c = (let n = of_char c :: nat in if 65 \<le> n \<and> n \<le> 90 then char_of (n + 32) else c)"

definition upper :: "char \<Rightarrow> char" where
  \<comment> \<open>\<open>a\<close> to \<open>z\<close> (97 to 122) become \<open>A\<close> to \<open>Z\<close>\<close>
  "upper c = (let n = of_char c :: nat in if 97 \<le> n \<and> n \<le> 122 then char_of (n - 32) else c)"

definition capitalize :: "string \<Rightarrow> string" where
  \<comment> \<open>\<open>s.capitalize()\<close>: first character upper-cased, the others lower-cased; it is
      only ever applied to a text that matched \<open>(medium|hard)\<close>, so to ASCII letters\<close>
  "capitalize s = (case s of [] \<Rightarrow> [] | c # cs \<Rightarrow> upper c # map lower cs)"

fun occurs :: "string \<Rightarrow> string \<Rightarrow> bool" where
  \<comment> \<open>\<open>l in s\<close>: the text \<open>l\<close> occurs somewhere in \<open>s\<close>\<close>
  "occurs l [] = (l = [])"
| "occurs l (c # cs) = (prefix l (c # cs) \<or> occurs l cs)"

section \<open>\<open>str.split\<close> with a separator\<close>

function split :: "string \<Rightarrow> string \<Rightarrow> string list" where
  \<comment> \<open>\<open>s.split(sep)\<close>: cut at the leftmost occurrences of \<open>sep\<close>, which do not overlap;
      the separator is never empty here (Python raises ValueError on an empty one)\<close>
  "split sep [] = [[]]"
| "split sep (c # cs) =
     (if sep \<noteq> [] \<and> prefix sep (c # cs)
      then [] # split sep (drop (length sep) (c # cs))
      else (case split sep cs of p # ps \<Rightarrow> (c # p) # ps | [] \<Rightarrow> []))"
  by pat_completeness auto
termination
  by (relation "measure (\<lambda>(sep, s). length s)") (auto simp: less_Suc_eq_le neq_Nil_conv)

section \<open>Regular expressions as backtracking matchers\<close>

text \<open>
  Python's \<open>re\<close> is a backtracking matcher: at a start position it tries the pattern's
  items from left to right, a greedy repetition taking as much as it can first and giving
  characters back one at a time, a lazy one taking as little as it can first. Each item
  below takes the matcher \<open>k\<close> of the rest of the pattern and the text still to read, and
  returns the result of the first way to match that makes \<open>k\<close> succeed.
\<close>

definition lit :: "string \<Rightarrow> (string \<Rightarrow> 'a option) \<Rightarrow> string \<Rightarrow> 'a option" where
  \<comment> \<open>a literal text\<close>
  "lit l k s = (if prefix l s then k (drop (length l) s) else None)"

definition lit_ci :: "string \<Rightarrow> (string \<Rightarrow> 'a option) \<Rightarrow> string \<Rightarrow> 'a option" where
  \<comment> \<open>a literal text under \<open>re.IGNORECASE\<close>; \<open>l\<close> is given in lower case\<close>
  "lit_ci l k s = (if map lower (take (length l) s) = l then k (drop (length l) s) else None)"

fun star :: "(char \<Rightarrow> bool) \<Rightarrow> (string \<Rightarrow> 'a option) \<Rightarrow> string \<Rightarrow> 'a option" where
  \<comment> \<open>\<open>c*\<close> for a character class \<open>c\<close>, greedy\<close>
  "star p k [] = k []"
| "star p k (c # cs) =
     (if p c then (case star p k cs of Some r \<Rightarrow> Some r | None \<Rightarrow> k (c # cs))
      else k (c # cs))"

definition one :: "(char \<Rightarrow> bool) \<Rightarrow> (char \<Rightarrow> string \<Rightarrow> 'a option) \<Rightarrow> string \<Rightarrow> 'a option" where
  \<comment> \<open>\<open>(c)\<close>: one character of a class, captured\<close>
  "one p k s = (case s of [] \<Rightarrow> None | c # cs \<Rightarrow> if p c then k c cs else None)"

fun alt_ci :: "string list \<Rightarrow> (string \<Rightarrow> string \<Rightarrow> 'a option) \<Rightarrow> string \<Rightarrow> 'a option" where
  \<comment> \<open>\<open>(a|b|...)\<close> under \<open>re.IGNORECASE\<close>, captured: the alternatives in order\<close>
  "alt_ci [] k s = None"
| "alt_ci (a # as) k s =
     (case (if map lower (take (length a) s) = a
            then k (take (length a) s) (drop (length a) s) else None)
      of Some r \<Rightarrow> Some r | None \<Rightarrow> alt_ci as k s)"

fun lazy_more :: "(char \<Rightarrow> bool) \<Rightarrow> (string \<Rightarrow> string \<Rightarrow> 'a option) \<Rightarrow> string \<Rightarrow> string \<Rightarrow> 'a option" where
  \<comment> \<open>the lazy repetition after \<open>g\<close> has been captured: first stop here, then take one more\<close>
  "lazy_more p k g [] = k g []"
| "lazy_more p k g (c # cs) =
     (case k g (c # cs) of Some r \<Rightarrow> Some r
      | None \<Rightarrow> if p c then lazy_more p k (g @ [c]) cs else None)"

definition plus_lazy :: "(char \<Rightarrow> bool) \<Rightarrow> (string \<Rightarrow> string \<Rightarrow> 'a option) \<Rightarrow> string \<Rightarrow> 'a option" where
  \<comment> \<open>\<open>(c+?)\<close>: one or more characters of a class, as few as possible, captured\<close>
  "plus_lazy p k s = (case s of [] \<Rightarrow> None | c # cs \<Rightarrow> if p c then lazy_more p k [c] cs else None)"

fun greedy_more :: "(char \<Rightarrow> bool) \<Rightarrow> (string \<Rightarrow> string \<Rightarrow> 'a option) \<Rightarrow> string \<Rightarrow> string \<Rightarrow> 'a option" where
  \<comment> \<open>the greedy repetition after \<open>g\<close> has been captured: first take one more, then stop here\<close>
  "greedy_more p k g [] = k g []"
| "greedy_more p k g (c # cs) =
     (if p c then (case greedy_more p k (g @ [c]) cs of Some r \<Rightarrow> Some r | None \<Rightarrow> k g (c # cs))
      else k g (c # cs))"

definition plus_greedy :: "(char \<Rightarrow> bool) \<Rightarrow> (string \<Rightarrow> string \<Rightarrow> 'a option) \<Rightarrow> string \<Rightarrow> 'a option" where
  \<comment> \<open>\<open>(c+)\<close>: one or more characters of a class, as many as possible, captured\<close>
  "plus_greedy p k s = (case s of [] \<Rightarrow> None | c # cs \<Rightarrow> if p c then greedy_more p k [c] cs else None)"

fun search :: "(string \<Rightarrow> 'a option) \<Rightarrow> string \<Rightarrow> 'a option" where
  \<comment> \<open>\<open>re.search\<close>: the match at the leftmost start position that has one\<close>
  "search m [] = m []"
| "search m (c # cs) = (case m (c # cs) of Some r \<Rightarrow> Some r | None \<Rightarrow> search m cs)"

definition any_char :: "char \<Rightarrow> bool" where
  \<comment> \<open>\<open>.\<close> under \<open>re.DOTALL\<close>\<close>
  "any_char c = True"

definition not_newline :: "char \<Rightarrow> bool" where
  \<comment> \<open>\<open>.\<close> without \<open>re.DOTALL\<close>\<close>
  "not_newline c = (c \<noteq> CHR 0x0A)"

definition A_to_D :: "char \<Rightarrow> bool" where
  \<comment> \<open>\<open>[A-D]\<close>\<close>
  "A_to_D c = (c \<in> set ''ABCD'')"

subsection \<open>The five patterns of \<open>parse_questions\<close>\<close>

definition re_difficulty :: "string \<Rightarrow> string option" where
  \<comment> \<open>\<open>re.search(r"Difficulty:\s*(medium|hard)", block, re.IGNORECASE)\<close>, its group 1\<close>
  "re_difficulty =
     search (lit_ci ''difficulty:'' (star isspace (alt_ci [''medium'', ''hard''] (\<lambda>g r. Some g))))"

definition re_question :: "string \<Rightarrow> string option" where
  \<comment> \<open>\<open>re.search(r"Question:\s*(.+?)\nOptions:", block, re.DOTALL)\<close>, its group 1\<close>
  "re_question =
     search (lit ''Question:'' (star isspace (plus_lazy any_char
       (\<lambda>g. lit (CHR 0x0A # ''Options:'') (\<lambda>r. Some g)))))"

definition re_options :: "string \<Rightarrow> string option" where
  \<comment> \<open>\<open>re.search(r"Options:\s*(.+?)\nCorrect:", block, re.DOTALL)\<close>, its group 1\<close>
  "re_options =
     search (lit ''Options:'' (star isspace (plus_lazy any_char
       (\<lambda>g. lit (CHR 0x0A # ''Correct:'') (\<lambda>r. Some g)))))"

definition re_correct :: "string \<Rightarrow> char option" where
  \<comment> \<open>\<open>re.search(r"Correct:\s*([A-D])", block)\<close>, its group 1\<close>
  "re_correct = search (lit ''Correct:'' (star isspace (one A_to_D (\<lambda>c r. Some c))))"

definition option_at :: "string \<Rightarrow> ((char \<times> string) \<times> nat) option" where
  \<comment> \<open>\<open>r"([A-D])\)\s*(.+)"\<close> matched at the start of \<open>s\<close>: the two groups and the number
      of characters the match takes\<close>
  "option_at s =
     one A_to_D (\<lambda>c. lit '')'' (star isspace (plus_greedy not_newline
       (\<lambda>g r. Some ((c, g), length s - length r))))) s"

fun findall_from :: "nat \<Rightarrow> string \<Rightarrow> (char \<times> string) list" where
  \<comment> \<open>\<open>re.findall\<close>: the matches from left to right, each search starting where the match
      before it ended; \<open>n\<close> is the number of characters still inside the last match\<close>
  "findall_from n [] = []"
| "findall_from n (c # cs) =
     (if 0 < n then findall_from (n - 1) cs
      else (case option_at (c # cs) of
              Some (m, len) \<Rightarrow> m # findall_from (len - 1) cs
            | None \<Rightarrow> findall_from 0 cs))"

definition findall_options :: "string \<Rightarrow> (char \<times> string) list" where
  \<comment> \<open>\<open>re.findall(r"([A-D])\)\s*(.+)", options_text)\<close>\<close>
  "findall_options s = findall_from 0 s"

section \<open>\<open>parse_questions\<close>\<close>

datatype exn = AttributeError | ZeroDivisionError

record question_rec =
  difficulty :: string
  question :: string
  options :: "(string \<times> string) list"
  answer :: string

definition group1 :: "'a option \<Rightarrow> exn + 'a" where
  \<comment> \<open>\<open>m.group(1)\<close> on the result of \<open>re.search\<close>: \<open>None\<close> has no attribute \<open>group\<close>\<close>
  "group1 m = (case m of None \<Rightarrow> Inl AttributeError | Some g \<Rightarrow> Inr g)"

definition and_then :: "exn + 'a \<Rightarrow> ('a \<Rightarrow> exn + 'b) \<Rightarrow> exn + 'b" where
  \<comment> \<open>the next statement runs only when this one has not raised\<close>
  "and_then r f = (case r of Inl e \<Rightarrow> Inl e | Inr x \<Rightarrow> f x)"

definition dict_of :: "(string \<times> string) list \<Rightarrow> (string \<times> string) list" where
  \<comment> \<open>a dict comprehension: the pairs are stored one after the other, a key that is
      already there keeps its place and takes the new value\<close>
  "dict_of kvs = fold (\<lambda>(k, v) d. AList.update k v d) kvs []"

definition extract_fields :: "string \<Rightarrow> exn + question_rec" where
  \<comment> \<open>the four extractions in the body of \<open>try\<close>, in the source's order\<close>
  "extract_fields block =
     and_then (group1 (re_difficulty block)) (\<lambda>d.
     and_then (group1 (re_question block)) (\<lambda>qt.
     and_then (group1 (re_options block)) (\<lambda>ot.
       let options_text = strip ot;
           opts = dict_of (map (\<lambda>opt. ([upper (fst opt)], strip (snd opt)))
                               (findall_options options_text))
       in and_then (group1 (re_correct block)) (\<lambda>a.
            Inr \<lparr>difficulty = capitalize d, question = strip qt,
                 options = opts, answer = [upper a]\<rparr>))))"

definition validate :: "question_rec \<Rightarrow> bool" where
  \<comment> \<open>\<open>all([q['question'], len(q['options']) == 4, q['answer']])\<close>\<close>
  "validate q = (question q \<noteq> [] \<and> length (options q) = 4 \<and> answer q \<noteq> [])"

definition try_block :: "string \<Rightarrow> question_rec list \<Rightarrow> exn + question_rec list" where
  \<comment> \<open>the body of \<open>try\<close> for one block\<close>
  "try_block block questions =
     and_then (extract_fields block) (\<lambda>q.
       Inr (if validate q then questions @ [q] else questions))"

fun for_blocks :: "string list \<Rightarrow> question_rec list \<Rightarrow> exn + question_rec list" where
  \<comment> \<open>the loop over the blocks; \<open>except Exception: continue\<close> leaves \<open>questions\<close> as it was\<close>
  "for_blocks [] questions = Inr questions"
| "for_blocks (block # blocks) questions =
     (case try_block block questions of
        Inl e \<Rightarrow> for_blocks blocks questions
      | Inr questions' \<Rightarrow> for_blocks blocks questions')"

definition parse_questions :: "string \<Rightarrow> exn + question_rec list" where
  "parse_questions text =
     (let question_blocks = drop 1 (split ''[Question_'' text)
      in and_then (for_blocks question_blocks []) (\<lambda>questions. Inr (take 7 questions)))"

section \<open>Quiz state and scoring\<close>

text \<open>
  The session state holds the question list (\<open>None\<close> after \<open>generate_questions\<close> has
  returned \<open>None\<close>), the answers by question index and the last score. Python divides
  the two integers as floating-point numbers; the model takes the exact quotient.
\<close>

record quiz_state =
  questions :: "question_rec list option"
  answers :: "nat \<rightharpoonup> string"
  score :: real

definition get :: "(nat \<rightharpoonup> string) \<Rightarrow> nat \<Rightarrow> string \<Rightarrow> string" where
  \<comment> \<open>\<open>d.get(i, default)\<close>\<close>
  "get d i dflt = (case d i of None \<Rightarrow> dflt | Some v \<Rightarrow> v)"

definition truediv :: "nat \<Rightarrow> nat \<Rightarrow> exn + real" where
  \<comment> \<open>\<open>a / b\<close>\<close>
  "truediv a b = (if b = 0 then Inl ZeroDivisionError else Inr (real a / real b))"

definition count_correct :: "(nat \<rightharpoonup> string) \<Rightarrow> question_rec list \<Rightarrow> nat" where
  \<comment> \<open>the loop over \<open>enumerate(questions)\<close> that adds one to \<open>correct\<close> for each match\<close>
  "count_correct ans qs =
     fold (\<lambda>(i, q) correct. if get ans i [] = answer q then correct + 1 else correct)
          (enumerate 0 qs) 0"

definition truthy :: "question_rec list option \<Rightarrow> bool" where
  \<comment> \<open>\<open>None\<close> and the empty list are false in a condition\<close>
  "truthy v = (case v of None \<Rightarrow> False | Some qs \<Rightarrow> qs \<noteq> [])"

definition scoring :: "quiz_state \<Rightarrow> bool \<Rightarrow> exn + quiz_state" where
  \<comment> \<open>step 3 of the page; \<open>submit\<close> is what \<open>st.button("Submit Answers")\<close> returns\<close>
  "scoring st submit =
     (if truthy (questions st) \<and> submit
      then (let qs = the (questions st)
            in and_then (truediv (count_correct (answers st) qs) (length qs))
                 (\<lambda>r. Inr (st\<lparr>score := r * 100\<rparr>)))
      else Inr st)"

definition option_keys :: "string \<Rightarrow> string set" where
  \<comment> \<open>the keys that the dict comprehension stores for an options text\<close>
  "option_keys ot = (\<lambda>opt. [upper (fst opt)]) ` set (findall_options ot)"

section \<open>The text format of a quiz\<close>

text \<open>
  The prompt of \<open>generate_questions\<close> asks for blocks of this form:
  \<^verbatim>\<open>
  [Question_X]
  Difficulty: medium/hard
  Question: Clear question text
  Options:
  A) Plausible option
  ...
  Correct: Letter only
  \<close>
  \<open>block_src\<close> holds what is written in one block and \<open>render\<close> writes it out; a
  block may have any list of option lines and may lack the line of the correct letter.
\<close>

record block_src =
  number :: string
  level :: string
  stem :: string
  option_lines :: "(char \<times> string) list"
  correct :: "char option"

definition option_line :: "char \<times> string \<Rightarrow> string" where
  "option_line lt = CHR 0x0A # fst lt # '') '' @ snd lt"

definition correct_line :: "char option \<Rightarrow> string" where
  "correct_line k = (case k of None \<Rightarrow> [] | Some c \<Rightarrow> CHR 0x0A # ''Correct: '' @ [c])"

definition render :: "block_src \<Rightarrow> string" where
  "render b = number b @ '']'' @ CHR 0x0A # ''Difficulty: '' @ level b
              @ CHR 0x0A # ''Question: '' @ stem b
              @ CHR 0x0A # ''Options:'' @ concat (map option_line (option_lines b))
              @ correct_line (correct b) @ [CHR 0x0A]"

definition quiz_text :: "string \<Rightarrow> block_src list \<Rightarrow> string" where
  \<comment> \<open>a preamble and the blocks, each after the delimiter\<close>
  "quiz_text pre bs = pre @ concat (map (\<lambda>b. ''[Question_'' @ render b) bs)"

section \<open>Blocks written as the prompt asks\<close>

fun starts_in :: "string \<Rightarrow> string \<Rightarrow> string \<Rightarrow> bool" where
  \<comment> \<open>in the text \<open>a @ s\<close>, an occurrence of \<open>l\<close> starts inside \<open>a\<close>\<close>
  "starts_in l [] s = False"
| "starts_in l (c # cs) s = (prefix l (c # cs @ s) \<or> starts_in l cs s)"

definition free_of :: "string list \<Rightarrow> string \<Rightarrow> bool" where
  \<comment> \<open>none of the texts \<open>ls\<close> occurs in \<open>s\<close>\<close>
  "free_of ls s = (\<forall>l\<in>set ls. \<not> occurs l s)"

definition has_text :: "string \<Rightarrow> bool" where
  \<comment> \<open>\<open>s\<close> is not empty after trimming\<close>
  "has_text s = (\<exists>c\<in>set s. \<not> isspace c)"

definition rstrip :: "string \<Rightarrow> string" where
  \<comment> \<open>\<open>s.rstrip()\<close>\<close>
  "rstrip s = rev (dropWhile isspace (rev s))"

definition line_ok :: "char \<times> string \<Rightarrow> bool" where
  \<comment> \<open>an option line: a label that is not whitespace, and on the same line a text that is
      not blank and contains neither a label of the format nor the delimiter; the text of
      a line whose label is not one of A to D contains no \<open>A)\<close>, \<open>B)\<close>, \<open>C)\<close>, \<open>D)\<close>\<close>
  "line_ok lt = (case lt of (l, t) \<Rightarrow>
     \<not> isspace l \<and> CHR 0x0A \<notin> set t \<and> has_text t
     \<and> free_of [''Correct:'', ''[Question_''] t
     \<and> (A_to_D l \<or> free_of [''A)'', ''B)'', ''C)'', ''D)''] t))"

definition well_formed :: "block_src \<Rightarrow> bool" where
  \<comment> \<open>a block in which every field is in its place: no field contains a label that the
      patterns look for later in the block, nor the delimiter; the difficulty is
      \<open>medium\<close> or \<open>hard\<close> in any case; the question text is not blank; there is at
      least one option line; and the correct letter, when it is there, is one of A to D\<close>
  "well_formed b =
     (free_of [''difficulty:''] (map lower (number b))
      \<and> free_of [''Question:'', ''Options:'', ''Correct:'', ''[Question_''] (number b)
      \<and> (map lower (level b) = ''medium'' \<or> map lower (level b) = ''hard'')
      \<and> has_text (stem b)
      \<and> free_of [''Options:'', ''Correct:'', ''[Question_''] (stem b)
      \<and> option_lines b \<noteq> [] \<and> (\<forall>lt\<in>set (option_lines b). line_ok lt)
      \<and> (case correct b of None \<Rightarrow> True | Some k \<Rightarrow> A_to_D k))"

definition complete :: "block_src \<Rightarrow> bool" where
  \<comment> \<open>the line of the correct letter is there and each of A, B, C, D labels a line\<close>
  "complete b = (correct b \<noteq> None \<and> set ''ABCD'' \<subseteq> fst ` set (option_lines b))"

definition record_of :: "block_src \<Rightarrow> question_rec" where
  \<comment> \<open>the record that a complete block stands for: the fields trimmed, the difficulty
      capitalized, the lines labelled A to D stored in a dict\<close>
  "record_of b =
     \<lparr>difficulty = capitalize (level b), question = strip (stem b),
      options = dict_of (map (\<lambda>lt. ([fst lt], strip (snd lt)))
                             (filter (\<lambda>lt. A_to_D (fst lt)) (option_lines b))),
      answer = (case correct b of None \<Rightarrow> [] | Some k \<Rightarrow> [k])\<rparr>"

definition standard :: "block_src \<Rightarrow> bool" where
  \<comment> \<open>a well-formed block with the four option lines A, B, C, D and the line of the
      correct letter\<close>
  "standard b = (well_formed b \<and> map fst (option_lines b) = ''ABCD'' \<and> correct b \<noteq> None)"

definition written_record :: "block_src \<Rightarrow> question_rec" where
  \<comment> \<open>the fields of a block as they are written, trimmed, the difficulty capitalized\<close>
  "written_record b =
     \<lparr>difficulty = (if map lower (level b) = ''medium'' then ''Medium'' else ''Hard''),
      question = strip (stem b),
      options = map (\<lambda>lt. ([fst lt], strip (snd lt))) (option_lines b),
      answer = (case correct b of None \<Rightarrow> [] | Some k \<Rightarrow> [k])\<rparr>"

section \<open>Example inputs\<close>


definition sample :: "string \<Rightarrow> char \<Rightarrow> block_src" where
  \<comment> \<open>a block in the format of the prompt\<close>
  "sample n k = \<lparr>number = n, level = ''medium'', stem = ''What is it?'',
                 option_lines = [(CHR ''A'', ''w''), (CHR ''B'', ''x''), (CHR ''C'', ''y''), (CHR ''D'', ''z'')],
                 correct = Some k\<rparr>"

definition sample_rec :: "string \<Rightarrow> question_rec" where
  \<comment> \<open>the record of \<open>sample n k\<close> when \<open>k\<close> is one of A to D\<close>
  "sample_rec k = \<lparr>difficulty = ''Medium'', question = ''What is it?'',
                   options = [(''A'', ''w''), (''B'', ''x''), (''C'', ''y''), (''D'', ''z'')],
                   answer = k\<rparr>"

definition twice_A :: block_src where
  \<comment> \<open>two lines labelled A beside the lines B, C and D\<close>
  "twice_A = (sample ''1'' (CHR ''B''))\<lparr>option_lines :=
     [(CHR ''A'', ''w''), (CHR ''A'', ''v''), (CHR ''B'', ''x''), (CHR ''C'', ''y''), (CHR ''D'', ''z'')]\<rparr>"

definition no_difficulty_block :: string where
  \<comment> \<open>a block without the Difficulty line, the other lines as the prompt asks\<close>
  "no_difficulty_block = ''1]'' @ CHR 0x0A # ''Question: What is it?''
     @ CHR 0x0A # ''Options:'' @ CHR 0x0A # ''A) w'' @ CHR 0x0A # ''B) x''
     @ CHR 0x0A # ''C) y'' @ CHR 0x0A # ''D) z'' @ CHR 0x0A # ''Correct: B'' @ [CHR 0x0A]"

definition twice_A_options :: string where
  \<comment> \<open>what \<open>re_options\<close> captures in \<open>render twice_A\<close>\<close>
  "twice_A_options = ''A) w'' @ CHR 0x0A # ''A) v'' @ CHR 0x0A # ''B) x''
     @ CHR 0x0A # ''C) y'' @ CHR 0x0A # ''D) z''"

definition twice_A_rec :: question_rec where
  "twice_A_rec = \<lparr>difficulty = ''Medium'', question = ''What is it?'',
                   options = [(''A'', ''v''), (''B'', ''x''), (''C'', ''y''), (''D'', ''z'')],
                   answer = ''B''\<rparr>"

definition ten_blocks :: "block_src list" where
  "ten_blocks = map (\<lambda>(n, k). sample n k)
     [(''1'', CHR ''A''), (''2'', CHR ''B''), (''3'', CHR ''C''), (''4'', CHR ''D''),
      (''5'', CHR ''A''), (''6'', CHR ''B''), (''7'', CHR ''C''), (''8'', CHR ''D''),
      (''9'', CHR ''A''), (''10'', CHR ''B'')]"

definition seven_blocks :: "block_src list" where
  "seven_blocks = take 7 ten_blocks"

definition no_correct :: block_src where
  \<comment> \<open>a block without the line of the correct letter\<close>
  "no_correct = (sample ''3'' (CHR ''A''))\<lparr>correct := None\<rparr>"

definition three_options :: block_src where
  \<comment> \<open>a block with the option lines A, B and C only\<close>
  "three_options = (sample ''6'' (CHR ''B''))\<lparr>option_lines :=
     [(CHR ''A'', ''w''), (CHR ''B'', ''x''), (CHR ''C'', ''y'')]\<rparr>"

definition with_E :: block_src where
  \<comment> \<open>a block with a fifth option line, labelled E\<close>
  "with_E = (sample ''1'' (CHR ''C''))\<lparr>option_lines :=
     [(CHR ''A'', ''w''), (CHR ''B'', ''x''), (CHR ''C'', ''y''), (CHR ''D'', ''z''),
      (CHR ''E'', ''v'')]\<rparr>"

definition with_E_label :: block_src where
  \<comment> \<open>a block with a fifth option line, labelled E, whose text contains \<open>A)\<close>\<close>
  "with_E_label = (sample ''1'' (CHR ''C''))\<lparr>option_lines :=
     [(CHR ''A'', ''w''), (CHR ''B'', ''x''), (CHR ''C'', ''y''), (CHR ''D'', ''z''),
      (CHR ''E'', ''Both A) and B)'')]\<rparr>"

section \<open>Properties of splitting and of the loop\<close>

lemma split_no_occurrence: "\<not> occurs sep s \<Longrightarrow> split sep s = [s]"
  by (induction s) auto

lemma for_blocks_returns: "\<exists>qs'. for_blocks bs qs = Inr qs'"
  by (induction bs arbitrary: qs) (auto split: sum.splits)

text \<open>
  C4. For every input text \<open>parse_questions\<close> returns a list of records and raises
  nothing: the only statements that can raise are the four \<open>.group(1)\<close> calls inside
  \<open>try\<close>, and \<open>except Exception: continue\<close> catches them. A text in which the
  delimiter \<open>[Question_\<close> does not occur gives the empty list.
\<close>

theorem parse_questions_never_raises:
  "(\<exists>qs. parse_questions text = Inr qs) \<and>
   (\<not> occurs ''[Question_'' text \<longrightarrow> parse_questions text = Inr [])"
proof
  obtain qs where "for_blocks (drop 1 (split ''[Question_'' text)) [] = Inr qs"
    using for_blocks_returns by blast
  then show "\<exists>qs. parse_questions text = Inr qs"
    by (simp add: parse_questions_def and_then_def)
next
  show "\<not> occurs ''[Question_'' text \<longrightarrow> parse_questions text = Inr []"
    by (simp add: parse_questions_def and_then_def split_no_occurrence)
qed

theorem parse_questions_never_raises_witness:
  "\<not> occurs ''[Question_'' ''no quiz here'' \<and> parse_questions ''no quiz here'' = Inr []"
  using parse_questions_never_raises [of "''no quiz here''"] by simp

section \<open>What a successful match tells\<close>

lemma upper_A_to_D: "A_to_D c \<Longrightarrow> upper c = c"
  by (auto simp: A_to_D_def upper_def)

lemma search_Some: "search m s = Some r \<Longrightarrow> \<exists>s'. m s' = Some r"
  by (induction s) (auto split: option.splits)

lemma lit_Some: "lit l k s = Some r \<Longrightarrow> prefix l s \<and> k (drop (length l) s) = Some r"
  by (auto simp: lit_def split: if_splits)

lemma star_Some: "star p k s = Some r \<Longrightarrow> \<exists>s'. k s' = Some r"
  by (induction s) (auto split: if_splits option.splits)

lemma one_Some: "one p k s = Some r \<Longrightarrow> \<exists>c cs. s = c # cs \<and> p c \<and> k c cs = Some r"
  by (auto simp: one_def split: list.splits if_splits)

lemma greedy_more_Some: "greedy_more p k g s = Some r \<Longrightarrow> \<exists>g' s'. k g' s' = Some r"
  by (induction s arbitrary: g) (auto split: if_splits option.splits)

lemma plus_greedy_Some: "plus_greedy p k s = Some r \<Longrightarrow> \<exists>g' s'. k g' s' = Some r"
  by (auto simp: plus_greedy_def split: list.splits if_splits dest: greedy_more_Some)

lemma re_correct_A_to_D: "re_correct block = Some a \<Longrightarrow> A_to_D a"
  unfolding re_correct_def
  by (auto dest!: search_Some lit_Some star_Some one_Some)

lemma option_at_A_to_D: "option_at s = Some ((c, g), n) \<Longrightarrow> A_to_D c"
  unfolding option_at_def
  by (auto dest!: one_Some lit_Some star_Some plus_greedy_Some)

lemma findall_from_A_to_D: "(c, g) \<in> set (findall_from n s) \<Longrightarrow> A_to_D c"
  by (induction s arbitrary: n) (auto split: if_splits option.splits dest: option_at_A_to_D)

lemma dict_of_keys: "fst ` set (fold (\<lambda>(k, v) d. AList.update k v d) kvs d) = fst ` set kvs \<union> fst ` set d"
  by (induction kvs arbitrary: d) (auto simp: dom_update split: prod.splits)

lemma dict_of_distinct: "distinct (map fst d) \<Longrightarrow> distinct (map fst (fold (\<lambda>(k, v) d. AList.update k v d) kvs d))"
  by (induction kvs arbitrary: d) (auto simp: distinct_update split: prod.splits)

lemma set_dict_of: "fst ` set (dict_of kvs) = fst ` set kvs"
  by (simp add: dict_of_def dict_of_keys)

lemma distinct_dict_of: "distinct (map fst (dict_of kvs))"
  by (simp add: dict_of_def dict_of_distinct)

lemma length_dict_of: "length (dict_of kvs) = card (fst ` set kvs)"
proof -
  have "length (dict_of kvs) = length (map fst (dict_of kvs))" by simp
  also have "\<dots> = card (set (map fst (dict_of kvs)))"
    using distinct_dict_of [of kvs] by (simp only: distinct_card)
  also have "\<dots> = card (fst ` set kvs)" by (simp add: set_dict_of)
  finally show ?thesis .
qed

lemma option_keys_subset: "option_keys ot \<subseteq> {''A'', ''B'', ''C'', ''D''}"
  by (auto simp: option_keys_def findall_options_def A_to_D_def upper_A_to_D dest!: findall_from_A_to_D)

lemma four_keys:
  assumes "K \<subseteq> {''A'', ''B'', ''C'', ''D''}" and "card K = 4"
  shows "K = {''A'', ''B'', ''C'', ''D''}"
  using assms by (intro card_subset_eq) auto

lemma extract_fields_Inr:
  assumes "extract_fields block = Inr q"
  shows "\<exists>d qt ot a. re_difficulty block = Some d \<and> re_question block = Some qt
           \<and> re_options block = Some ot \<and> re_correct block = Some a
           \<and> q = \<lparr>difficulty = capitalize d, question = strip qt,
                   options = dict_of (map (\<lambda>opt. ([upper (fst opt)], strip (snd opt)))
                                          (findall_options (strip ot))),
                   answer = [upper a]\<rparr>"
  using assms
  by (auto simp: extract_fields_def and_then_def group1_def Let_def split: option.splits sum.splits)

lemma for_blocks_invariant:
  assumes "\<And>b q. extract_fields b = Inr q \<Longrightarrow> validate q \<Longrightarrow> P q"
  shows "for_blocks bs qs = Inr qs' \<Longrightarrow> \<forall>q\<in>set qs. P q \<Longrightarrow> \<forall>q\<in>set qs'. P q"
proof (induction bs arbitrary: qs)
  case Nil
  then show ?case by simp
next
  case (Cons b bs)
  show ?case
  proof (cases "try_block b qs")
    case (Inl e)
    with Cons show ?thesis by simp
  next
    case (Inr qs1)
    then have "\<forall>q\<in>set qs1. P q"
      using Cons.prems(2) assms
      by (auto simp: try_block_def and_then_def split: sum.splits if_splits)
    with Cons Inr show ?thesis by simp
  qed
qed

lemma valid_record_keys:
  assumes "extract_fields b = Inr q" and "validate q"
  shows "fst ` set (options q) = {''A'', ''B'', ''C'', ''D''} \<and> answer q \<in> fst ` set (options q)"
proof -
  from extract_fields_Inr [OF assms(1)] obtain d qt ot a where
    a: "re_correct b = Some a"
    and q: "q = \<lparr>difficulty = capitalize d, question = strip qt,
                 options = dict_of (map (\<lambda>opt. ([upper (fst opt)], strip (snd opt)))
                                        (findall_options (strip ot))),
                 answer = [upper a]\<rparr>"
    by blast
  have k: "fst ` set (options q) = option_keys (strip ot)"
    by (simp add: q set_dict_of option_keys_def image_image)
  have "length (options q) = card (option_keys (strip ot))"
    by (simp add: q length_dict_of option_keys_def image_image)
  with assms(2) have "card (option_keys (strip ot)) = 4" by (simp add: validate_def)
  with option_keys_subset have "option_keys (strip ot) = {''A'', ''B'', ''C'', ''D''}"
    by (rule four_keys)
  moreover have "answer q \<in> {''A'', ''B'', ''C'', ''D''}"
    using re_correct_A_to_D [OF a] by (auto simp: q upper_A_to_D A_to_D_def)
  ultimately show ?thesis by (simp add: k)
qed

lemma alt_ci_Some:
  "alt_ci as k s = Some r \<Longrightarrow>
   \<exists>a\<in>set as. map lower (take (length a) s) = a \<and> k (take (length a) s) (drop (length a) s) = Some r"
  by (induction as) (auto split: option.splits if_splits)

lemma lit_ci_Some:
  "lit_ci l k s = Some r \<Longrightarrow> map lower (take (length l) s) = l \<and> k (drop (length l) s) = Some r"
  by (auto simp: lit_ci_def split: if_splits)

lemma upper_lower: "upper (lower c) = upper c"
  by (auto simp: lower_def upper_def Let_def)

lemma lower_lower: "lower (lower c) = lower c"
  by (auto simp: lower_def Let_def)

lemma capitalize_lower: "capitalize (map lower s) = capitalize s"
  by (cases s) (simp_all add: capitalize_def upper_lower lower_lower)

lemma capitalize_level:
  assumes "map lower d = ''medium'' \<or> map lower d = ''hard''"
  shows "capitalize d = (if map lower d = ''medium'' then ''Medium'' else ''Hard'')"
proof -
  have m: "capitalize ''medium'' = ''Medium''" and h: "capitalize ''hard'' = ''Hard''"
    by code_simp+
  from assms show ?thesis
    using capitalize_lower [of d] by (auto simp: m h)
qed

lemma extract_fields_AttributeError:
  "re_difficulty block = None \<or> re_question block = None \<or> re_options block = None
     \<or> re_correct block = None \<Longrightarrow> extract_fields block = Inl AttributeError"
  by (auto simp: extract_fields_def and_then_def group1_def Let_def split: option.splits)

lemma try_block_skip:
  "extract_fields block = Inl e \<Longrightarrow> for_blocks (block # blocks) qs = for_blocks blocks qs"
  by (simp add: try_block_def and_then_def)

lemma map_of_fold_update:
  "map_of (fold (\<lambda>(k, v) d. AList.update k v d) kvs d) = map_of (rev kvs @ d)"
proof (induction kvs arbitrary: d)
  case Nil
  then show ?case by simp
next
  case (Cons kv kvs)
  obtain k v where kv: "kv = (k, v)" by (cases kv)
  have "map_of (fold (\<lambda>(k, v) d. AList.update k v d) (kv # kvs) d)
        = map_of (rev kvs @ AList.update k v d)"
    by (simp add: kv Cons.IH)
  also have "\<dots> = map_of (rev kvs @ (k, v) # d)"
    by (simp add: map_of_append update_conv')
  finally show ?case by (simp add: kv)
qed

lemma map_of_dict_of: "map_of (dict_of kvs) = map_of (rev kvs)"
  by (simp add: dict_of_def map_of_fold_update)

lemma dict_of_last:
  assumes "k \<notin> fst ` set ys"
  shows "map_of (dict_of (xs @ (k, v) # ys)) k = Some v"
proof -
  have "map_of (rev ys) k = None"
    using assms by (simp add: map_of_eq_None_iff)
  then show ?thesis
    by (simp add: map_of_dict_of map_of_append map_add_def)
qed

lemma stored_text_is_last_match:
  assumes m: "findall_options s = xs @ (c, g) # ys" and c: "c \<notin> fst ` set ys"
  shows "map_of (dict_of (map (\<lambda>opt. ([upper (fst opt)], strip (snd opt))) (findall_options s))) [c]
         = Some (strip g)"
proof -
  let ?f = "\<lambda>opt. ([upper (fst opt)], strip (snd opt))"
  have A: "A_to_D c'" if "c' \<in> fst ` set (findall_options s)" for c'
    using that by (auto simp: findall_options_def dest!: findall_from_A_to_D)
  have "A_to_D c" by (rule A) (simp add: m)
  then have u: "upper c = c" by (rule upper_A_to_D)
  have "[c] \<notin> fst ` set (map ?f ys)"
  proof
    assume "[c] \<in> fst ` set (map ?f ys)"
    then obtain c' g' where in_ys: "(c', g') \<in> set ys" and "[c] = [upper c']" by auto
    moreover from in_ys have "A_to_D c'" by (intro A) (auto simp: m intro: rev_image_eqI)
    ultimately have "c = c'" by (simp add: upper_A_to_D)
    with in_ys c show False by (auto intro: rev_image_eqI)
  qed
  then have "map_of (dict_of (map ?f xs @ ([c], strip g) # map ?f ys)) [c] = Some (strip g)"
    by (rule dict_of_last)
  then show ?thesis by (simp add: m u)
qed

lemma search_lit_ci_None: "\<not> occurs l (map lower s) \<Longrightarrow> l \<noteq> [] \<Longrightarrow> search (lit_ci l k) s = None"
proof (induction s)
  case Nil
  then show ?case by (simp add: lit_ci_def)
next
  case (Cons c s)
  from Cons.prems have np: "\<not> prefix l (map lower (c # s))" and no: "\<not> occurs l (map lower s)"
    by auto
  have "map lower (take (length l) (c # s)) \<noteq> l"
  proof
    assume e: "map lower (take (length l) (c # s)) = l"
    have "prefix (take (length l) (map lower (c # s))) (map lower (c # s))"
      by (rule take_is_prefix)
    then show False using np e by (simp only: take_map)
  qed
  then have "lit_ci l k (c # s) = None" by (simp add: lit_ci_def)
  with Cons.IH [OF no Cons.prems(2)] show ?case by simp
qed

section \<open>Evaluated examples\<close>

lemma parse_twice_A: "parse_questions (quiz_text [] [twice_A]) = Inr [twice_A_rec]"
  by code_simp

lemma extract_twice_A: "extract_fields (render twice_A) = Inr twice_A_rec"
  by code_simp

lemma re_options_twice_A: "re_options (render twice_A) = Some twice_A_options"
  by code_simp

lemma findall_twice_A:
  "findall_options (strip twice_A_options)
   = [(CHR ''A'', ''w''), (CHR ''A'', ''v''), (CHR ''B'', ''x''), (CHR ''C'', ''y''),
      (CHR ''D'', ''z'')]"
  by code_simp

lemma no_label_in_no_difficulty_block:
  "\<not> occurs ''difficulty:'' (map lower no_difficulty_block)"
  by code_simp

section \<open>The records of the output\<close>

text \<open>
  C9. In every record that \<open>parse_questions\<close> returns, the keys of the options are
  exactly A, B, C and D, and the answer is one of these keys. A block whose Correct label is
  followed by the letter E is skipped: the text with that one block gives no record.
\<close>

theorem answer_is_an_option_key:
  "(\<forall>qs. parse_questions text = Inr qs \<longrightarrow>
      (\<forall>q\<in>set qs. fst ` set (options q) = {''A'', ''B'', ''C'', ''D''}
                   \<and> answer q \<in> fst ` set (options q)))
   \<and> parse_questions (quiz_text [] [sample ''1'' (CHR ''E'')]) = Inr []"
proof (intro conjI allI impI)
  fix qs assume "parse_questions text = Inr qs"
  then obtain qs0 where f: "for_blocks (drop 1 (split ''[Question_'' text)) [] = Inr qs0"
    and qs: "qs = take 7 qs0"
    by (auto simp: parse_questions_def and_then_def split: sum.splits)
  have "\<forall>q\<in>set qs0. fst ` set (options q) = {''A'', ''B'', ''C'', ''D''}
                   \<and> answer q \<in> fst ` set (options q)"
    by (rule for_blocks_invariant [OF _ f]) (erule (1) valid_record_keys, simp)
  then show "\<forall>q\<in>set qs. fst ` set (options q) = {''A'', ''B'', ''C'', ''D''}
                   \<and> answer q \<in> fst ` set (options q)"
    using set_take_subset [of 7 qs0] by (auto simp: qs)
next
  show "parse_questions (quiz_text [] [sample ''1'' (CHR ''E'')]) = Inr []"
    by code_simp
qed

theorem answer_is_an_option_key_witness:
  "fst ` set (options twice_A_rec) = {''A'', ''B'', ''C'', ''D''}
   \<and> answer twice_A_rec \<in> fst ` set (options twice_A_rec)"
proof -
  have "\<forall>q\<in>set [twice_A_rec].
      fst ` set (options q) = {''A'', ''B'', ''C'', ''D''} \<and> answer q \<in> fst ` set (options q)"
    by (rule answer_is_an_option_key [of "quiz_text [] [twice_A]", THEN conjunct1, THEN spec,
               of "[twice_A_rec]", THEN mp, OF parse_twice_A])
  then show ?thesis by (rule bspec) simp
qed

text \<open>
  C5, as the claim states it, fails: a block with two lines labelled A beside the lines B, C
  and D gives a record, in which the later line has replaced the earlier one.
\<close>

theorem duplicate_letter_counterexample:
  "parse_questions (quiz_text [] [twice_A])
   = Inr [\<lparr>difficulty = ''Medium'', question = ''What is it?'',
           options = [(''A'', ''v''), (''B'', ''x''), (''C'', ''y''), (''D'', ''z'')],
           answer = ''B''\<rparr>]"
  using parse_twice_A by (simp add: twice_A_rec_def)

text \<open>
  C5, amended. For a block whose four extractions succeed, the number of options stored is
  the number of distinct letters found as option labels; the block is accepted exactly when
  its question text is not empty and that number is 4, which is exactly when the letters
  found are A, B, C and D. How often a letter is found plays no part: the text stored for a
  letter is the trimmed text of the last match with that letter.
\<close>

theorem accepted_iff_four_distinct_letters:
  assumes "extract_fields block = Inr q" and "re_options block = Some ot"
  shows "length (options q) = card (fst ` set (findall_options (strip ot)))
         \<and> (try_block block qs = Inr (qs @ [q])
              \<longleftrightarrow> question q \<noteq> [] \<and> card (fst ` set (findall_options (strip ot))) = 4)
         \<and> (card (fst ` set (findall_options (strip ot))) = 4
              \<longleftrightarrow> fst ` set (findall_options (strip ot)) = set ''ABCD'')
         \<and> (\<forall>xs c g ys. findall_options (strip ot) = xs @ (c, g) # ys \<and> c \<notin> fst ` set ys
              \<longrightarrow> map_of (options q) [c] = Some (strip g))"
proof -
  let ?found = "fst ` set (findall_options (strip ot))"
  from extract_fields_Inr [OF assms(1)] assms(2) obtain d qt a where
    q: "q = \<lparr>difficulty = capitalize d, question = strip qt,
             options = dict_of (map (\<lambda>opt. ([upper (fst opt)], strip (snd opt)))
                                    (findall_options (strip ot))),
             answer = [upper a]\<rparr>"
    by auto
  have sub: "?found \<subseteq> set ''ABCD''"
    by (auto simp: findall_options_def A_to_D_def dest!: findall_from_A_to_D)
  have "(\<lambda>opt. [upper (fst opt)]) ` set (findall_options (strip ot))
        = (\<lambda>opt. [fst opt]) ` set (findall_options (strip ot))"
    by (intro image_cong refl)
       (auto simp: findall_options_def upper_A_to_D dest!: findall_from_A_to_D)
  then have "(\<lambda>opt. [upper (fst opt)]) ` set (findall_options (strip ot)) = (\<lambda>c. [c]) ` ?found"
    by (simp add: image_image)
  moreover have "card ((\<lambda>c. [c]) ` ?found) = card ?found"
    by (intro card_image) (simp add: inj_on_def)
  ultimately have len: "length (options q) = card ?found"
    by (simp add: q length_dict_of image_image)
  have acc: "try_block block qs = Inr (qs @ [q]) \<longleftrightarrow> question q \<noteq> [] \<and> card ?found = 4"
    using assms(1) len by (auto simp: try_block_def and_then_def validate_def q)
  have four: "card ?found = 4 \<longleftrightarrow> ?found = set ''ABCD''"
  proof
    assume "card ?found = 4"
    with sub show "?found = set ''ABCD''" by (intro card_subset_eq) auto
  next
    assume "?found = set ''ABCD''"
    then show "card ?found = 4" by simp
  qed
  have last: "\<forall>xs c g ys. findall_options (strip ot) = xs @ (c, g) # ys \<and> c \<notin> fst ` set ys
              \<longrightarrow> map_of (options q) [c] = Some (strip g)"
    using stored_text_is_last_match [of "strip ot"] by (simp add: q)
  show ?thesis by (rule conjI [OF len conjI [OF acc conjI [OF four last]]])
qed

theorem accepted_iff_four_distinct_letters_witness:
  "try_block (render twice_A) [] = Inr [twice_A_rec]
   \<and> card (fst ` set (findall_options (strip twice_A_options))) = 4
   \<and> map_of (options twice_A_rec) ''A'' = Some ''v''"
proof -
  note t = accepted_iff_four_distinct_letters [OF extract_twice_A re_options_twice_A, of "[]"]
  from t [THEN conjunct1]
  have c: "card (fst ` set (findall_options (strip twice_A_options))) = 4"
    by (simp add: twice_A_rec_def)
  moreover have "question twice_A_rec \<noteq> []" by (simp add: twice_A_rec_def)
  ultimately have a: "try_block (render twice_A) [] = Inr ([] @ [twice_A_rec])"
    using t [THEN conjunct2, THEN conjunct1] by blast
  have m: "findall_options (strip twice_A_options)
           = [(CHR ''A'', ''w'')] @ (CHR ''A'', ''v'')
             # [(CHR ''B'', ''x''), (CHR ''C'', ''y''), (CHR ''D'', ''z'')]"
    by (simp add: findall_twice_A)
  have n: "CHR ''A'' \<notin> fst ` set [(CHR ''B'', ''x''), (CHR ''C'', ''y''), (CHR ''D'', ''z'')]"
    by simp
  have "strip ''v'' = ''v''" by code_simp
  with t [THEN conjunct2, THEN conjunct2, THEN conjunct2, rule_format, OF conjI [OF m n]]
  have "map_of (options twice_A_rec) ''A'' = Some ''v''" by simp
  with a c show ?thesis by simp
qed

text \<open>
  C6, as the claim states it, fails: a block without the Difficulty line, and a block whose
  difficulty is \<open>easy\<close>, give no record, although their other lines are as the prompt
  asks.
\<close>

theorem no_difficulty_counterexample:
  "parse_questions (''[Question_'' @ no_difficulty_block) = Inr []
   \<and> parse_questions (quiz_text [] [(sample ''1'' (CHR ''B''))\<lparr>level := ''easy''\<rparr>]) = Inr []"
  by code_simp

text \<open>
  C6, amended. A block in which the Difficulty label is missing, or more generally in which
  \<open>Difficulty:\<close>, whitespace and \<open>medium\<close> or \<open>hard\<close> (in any case) are found
  nowhere, raises AttributeError inside \<open>try\<close> and is skipped: it adds no record, whatever
  its other fields are.
\<close>

theorem no_difficulty_no_record:
  "(\<not> occurs ''difficulty:'' (map lower block) \<longrightarrow> re_difficulty block = None)
   \<and> (re_difficulty block = None \<longrightarrow>
        try_block block qs = Inl AttributeError
        \<and> for_blocks (block # blocks) qs = for_blocks blocks qs)"
proof (intro conjI impI)
  assume "\<not> occurs ''difficulty:'' (map lower block)"
  then show "re_difficulty block = None"
    unfolding re_difficulty_def by (rule search_lit_ci_None) simp
next
  assume n: "re_difficulty block = None"
  then have e: "extract_fields block = Inl AttributeError"
    by (simp add: extract_fields_AttributeError)
  then show "try_block block qs = Inl AttributeError"
    by (simp add: try_block_def and_then_def)
  from e show "for_blocks (block # blocks) qs = for_blocks blocks qs"
    by (rule try_block_skip)
qed

theorem no_difficulty_no_record_witness:
  "\<not> occurs ''difficulty:'' (map lower no_difficulty_block)
   \<and> re_difficulty no_difficulty_block = None
   \<and> try_block no_difficulty_block [] = Inl AttributeError"
proof -
  note t = no_difficulty_no_record [of no_difficulty_block "[]" "[]"]
  from t [THEN conjunct1, THEN mp, OF no_label_in_no_difficulty_block]
  have n: "re_difficulty no_difficulty_block = None" .
  from t [THEN conjunct2, THEN mp, OF n]
  have "try_block no_difficulty_block [] = Inl AttributeError" by (rule conjunct1)
  with n no_label_in_no_difficulty_block show ?thesis by simp
qed

section \<open>Occurrences of a text and the items of a pattern\<close>

lemma starts_in_append: "starts_in l (a @ b) s = (starts_in l a (b @ s) \<or> starts_in l b s)"
  by (induction a) auto

lemma occurs_append: "occurs l (a @ s) = (starts_in l a s \<or> occurs l s)"
  by (induction a) auto

lemma starts_in_field:
  assumes "\<not> occurs l a" and "s = [] \<or> hd s \<notin> set (tl l)"
  shows "\<not> starts_in l a s"
  using assms(1)
proof (induction a)
  case Nil
  then show ?case by simp
next
  case (Cons c cs)
  then have np: "\<not> prefix l (c # cs)" and no: "\<not> occurs l cs" by auto
  have "\<not> prefix l ((c # cs) @ s)"
  proof
    assume "prefix l ((c # cs) @ s)"
    then have "prefix l (c # cs) \<or> (\<exists>us. l = (c # cs) @ us \<and> prefix us s)"
      by (simp only: prefix_append)
    with np obtain us where l: "l = (c # cs) @ us" and us: "prefix us s"
      by blast
    from l np have "us \<noteq> []" by auto
    with us have "s \<noteq> []" and "hd s = hd us" by (auto simp: prefix_def)
    with l \<open>us \<noteq> []\<close> have "hd s \<in> set (tl l)" by simp
    with assms(2) \<open>s \<noteq> []\<close> show False by simp
  qed
  with Cons.IH [OF no] show ?case by simp
qed

lemma occurs_length: "occurs l a \<Longrightarrow> length l \<le> length a"
  by (induction a) (auto dest: prefix_length_le)

lemma prefix_occurs: "prefix l a \<Longrightarrow> occurs l a"
  by (cases a) auto

lemma occurs_Cons: "occurs (c # l) a \<Longrightarrow> occurs l a"
  by (induction a) (auto simp: prefix_occurs)

lemma occurs_suffix: "suffix a' a \<Longrightarrow> occurs l a' \<Longrightarrow> occurs l a"
  by (induction a) (auto simp: suffix_Cons)

lemma occurs_set: "occurs l a \<Longrightarrow> set l \<subseteq> set a"
proof (induction a)
  case Nil
  then show ?case by simp
next
  case (Cons x xs)
  from Cons.prems have "prefix l (x # xs) \<or> occurs l xs" by simp
  then show ?case
  proof
    assume "prefix l (x # xs)"
    then show ?thesis by (rule set_mono_prefix)
  next
    assume "occurs l xs"
    with Cons.IH show ?thesis by auto
  qed
qed

lemma search_hit: "m s = Some r \<Longrightarrow> search m s = Some r"
  by (cases s) auto

lemma search_lit_skip:
  "\<not> starts_in l a s \<Longrightarrow> search (lit l k) (a @ s) = search (lit l k) s"
  by (induction a) (auto simp: lit_def)

lemma lit_ci_prefix: "(map lower (take (length l) x) = l) = prefix l (map lower x)"
  by (auto simp: prefix_def take_map [symmetric] intro: exI [of _ "map lower (drop (length l) x)"])
     (metis append_eq_conv_conj)

lemma search_lit_ci_skip:
  "\<not> starts_in l (map lower a) (map lower s) \<Longrightarrow> search (lit_ci l k) (a @ s) = search (lit_ci l k) s"
  by (induction a) (auto simp: lit_ci_def lit_ci_prefix)

lemma search_lit_None: "\<not> occurs l s \<Longrightarrow> search (lit l k) s = None"
  by (induction s) (auto simp: lit_def)

lemma star_skip:
  "\<forall>c\<in>set ws. p c \<Longrightarrow> r = [] \<or> \<not> p (hd r) \<Longrightarrow> k r = Some x \<Longrightarrow> star p k (ws @ r) = Some x"
  by (induction ws) (cases r; auto)+

lemma lazy_more_lit:
  "\<not> starts_in L g r \<Longrightarrow> prefix L r \<Longrightarrow> \<forall>c\<in>set g. p c \<Longrightarrow>
   lazy_more p (\<lambda>g. lit L (\<lambda>r. Some g)) g0 (g @ r) = Some (g0 @ g)"
proof (induction g arbitrary: g0)
  case Nil
  then show ?case by (cases r) (auto simp: lit_def)
next
  case (Cons c g)
  then show ?case by (auto simp: lit_def)
qed

lemma plus_lazy_lit:
  "g \<noteq> [] \<Longrightarrow> \<not> starts_in L (tl g) r \<Longrightarrow> prefix L r \<Longrightarrow> \<forall>c\<in>set g. p c \<Longrightarrow>
   plus_lazy p (\<lambda>g. lit L (\<lambda>r. Some g)) (g @ r) = Some g"
  by (cases g) (auto simp: plus_lazy_def lazy_more_lit)

lemma greedy_more_all:
  "\<forall>c\<in>set g. p c \<Longrightarrow> r = [] \<or> \<not> p (hd r) \<Longrightarrow> k (g0 @ g) r = Some x \<Longrightarrow>
   greedy_more p k g0 (g @ r) = Some x"
proof (induction g arbitrary: g0)
  case Nil
  then show ?case by (cases r) auto
next
  case (Cons c g)
  then show ?case by auto
qed

lemma plus_greedy_all:
  "g \<noteq> [] \<Longrightarrow> \<forall>c\<in>set g. p c \<Longrightarrow> r = [] \<or> \<not> p (hd r) \<Longrightarrow> k g r = Some x \<Longrightarrow>
   plus_greedy p k (g @ r) = Some x"
  by (cases g) (auto simp: plus_greedy_def greedy_more_all)

lemma split_first:
  "sep \<noteq> [] \<Longrightarrow> \<not> starts_in sep a (sep @ s) \<Longrightarrow> split sep (a @ sep @ s) = a # split sep s"
proof (induction a)
  case Nil
  then show ?case by (cases sep) auto
next
  case (Cons c a)
  then show ?case by auto
qed

section \<open>The difficulty and the question of a block\<close>

lemma lower_chars:
  "lower CHR ''D'' = CHR ''d''" "lower CHR ''i'' = CHR ''i''" "lower CHR ''f'' = CHR ''f''"
  "lower CHR ''c'' = CHR ''c''" "lower CHR ''u'' = CHR ''u''" "lower CHR ''l'' = CHR ''l''"
  "lower CHR ''t'' = CHR ''t''" "lower CHR ''y'' = CHR ''y''" "lower CHR '':'' = CHR '':''"
  "lower CHR '']'' = CHR '']''" "lower CHR 0x0A = CHR 0x0A" "lower CHR '' '' = CHR '' ''"
  by code_simp+

lemma isspace_lower: "isspace c \<Longrightarrow> lower c = c"
  unfolding isspace_def by (auto simp: lower_def)

lemma level_shape:
  assumes "map lower lv = ''medium'' \<or> map lower lv = ''hard''"
  shows "lv \<noteq> []" and "\<not> isspace (hd lv)" and "length lv \<le> 6"
proof -
  from assms show "lv \<noteq> []" by auto
  from assms show "length lv \<le> 6"
    by (auto dest!: arg_cong [where f = length])
  show "\<not> isspace (hd lv)"
  proof
    assume s: "isspace (hd lv)"
    from assms \<open>lv \<noteq> []\<close> have "lower (hd lv) = CHR ''m'' \<or> lower (hd lv) = CHR ''h''"
      by (cases lv) auto
    with isspace_lower [OF s] have "hd lv = CHR ''m'' \<or> hd lv = CHR ''h''" by simp
    with s show False by (auto simp: isspace_def)
  qed
qed

lemma alt_ci_level:
  assumes "map lower lv = ''medium'' \<or> map lower lv = ''hard''"
  shows "alt_ci [''medium'', ''hard''] (\<lambda>g r. Some g) (lv @ CHR 0x0A # rest) = Some lv"
  using assms
proof
  assume m: "map lower lv = ''medium''"
  then have "length (map lower lv) = 6" by simp
  then have "length lv = 6" by simp
  with m show ?thesis by simp
next
  assume h: "map lower lv = ''hard''"
  then have "length (map lower lv) = 4" by simp
  then have l: "length lv = 4" by simp
  with h show ?thesis by (simp add: lower_chars)
qed

lemma re_difficulty_at:
  assumes n: "\<not> occurs ''difficulty:'' (map lower n)"
    and lv: "map lower lv = ''medium'' \<or> map lower lv = ''hard''"
  shows "re_difficulty (n @ CHR '']'' # CHR 0x0A # ''Difficulty: '' @ lv @ CHR 0x0A # rest) = Some lv"
proof -
  let ?k = "alt_ci [''medium'', ''hard''] (\<lambda>g r. Some g)"
  let ?m = "lit_ci ''difficulty:'' (star isspace ?k)"
  let ?hit = "''Difficulty: '' @ lv @ CHR 0x0A # rest"
  have skip: "\<not> starts_in ''difficulty:'' (map lower (n @ [CHR '']'', CHR 0x0A])) (map lower ?hit)"
    using starts_in_field [OF n, of "CHR '']'' # x" for x]
    by (simp add: starts_in_append lower_chars)
  have "star isspace ?k ([CHR '' ''] @ (lv @ CHR 0x0A # rest)) = Some lv"
    by (rule star_skip) (use level_shape [OF lv] alt_ci_level [OF lv] in \<open>auto simp: isspace_def\<close>)
  then have hit: "?m ?hit = Some lv"
    by (simp add: lit_ci_def lower_chars)
  have "search ?m ((n @ [CHR '']'', CHR 0x0A]) @ ?hit) = search ?m ?hit"
    by (rule search_lit_ci_skip [OF skip])
  also have "\<dots> = Some lv" using hit by (rule search_hit)
  finally show ?thesis by (simp add: re_difficulty_def)
qed

lemma has_text_dropWhile:
  assumes "has_text st"
  shows "dropWhile isspace st \<noteq> []" and "\<not> isspace (hd (dropWhile isspace st))"
proof -
  from assms show "dropWhile isspace st \<noteq> []" by (auto simp: has_text_def)
  then show "\<not> isspace (hd (dropWhile isspace st))" by (rule hd_dropWhile)
qed

lemma not_occurs_level:
  assumes "map lower lv = ''medium'' \<or> map lower lv = ''hard''" and "6 < length l"
  shows "\<not> occurs l lv"
  using level_shape(3) [OF assms(1)] assms(2) occurs_length [of l lv] by auto

lemma re_question_at:
  assumes n: "\<not> occurs ''Question:'' n"
    and lv: "map lower lv = ''medium'' \<or> map lower lv = ''hard''"
    and st: "has_text st" "\<not> occurs ''Options:'' st"
  shows "re_question (n @ CHR '']'' # CHR 0x0A # ''Difficulty: '' @ lv @ CHR 0x0A # ''Question: ''
                      @ st @ CHR 0x0A # ''Options:'' @ rest) = Some (dropWhile isspace st)"
proof -
  let ?L = "CHR 0x0A # ''Options:''"
  let ?k = "plus_lazy any_char (\<lambda>g. lit ?L (\<lambda>r. Some g))"
  let ?m = "lit ''Question:'' (star isspace ?k)"
  let ?g = "dropWhile isspace st"
  let ?hit = "''Question: '' @ st @ ?L @ rest"
  have skip: "\<not> starts_in ''Question:''
                 (n @ CHR '']'' # CHR 0x0A # ''Difficulty: '' @ lv @ [CHR 0x0A]) ?hit"
    using starts_in_field [OF n, of "CHR '']'' # x" for x]
          starts_in_field [OF not_occurs_level [OF lv], of "''Question:''" "CHR 0x0A # x" for x]
    by (simp add: starts_in_append)
  have "\<not> occurs ?L (tl ?g)"
  proof
    assume "occurs ?L (tl ?g)"
    then have "occurs ''Options:'' (tl ?g)" by (rule occurs_Cons)
    moreover have "suffix (tl ?g) st"
      by (meson suffix_dropWhile suffix_order.trans suffix_tl)
    ultimately show False using st(2) occurs_suffix by blast
  qed
  then have ns: "\<not> starts_in ?L (tl ?g) (?L @ rest)"
    by (rule starts_in_field) simp
  have k: "?k (?g @ ?L @ rest) = Some ?g"
    by (rule plus_lazy_lit [OF has_text_dropWhile(1) [OF st(1)] ns]) (simp_all add: any_char_def)
  have eq: "CHR '' '' # st @ ?L @ rest = (CHR '' '' # takeWhile isspace st) @ (?g @ ?L @ rest)"
    by simp
  have "star isspace ?k (CHR '' '' # st @ ?L @ rest) = Some ?g"
    unfolding eq
    by (rule star_skip)
       (use has_text_dropWhile [OF st(1)] k in \<open>auto simp: isspace_def dest: set_takeWhileD\<close>)
  then have hit: "?m ?hit = Some ?g"
    by (simp add: lit_def del: star.simps)
  have "search ?m ((n @ CHR '']'' # CHR 0x0A # ''Difficulty: '' @ lv @ [CHR 0x0A]) @ ?hit)
        = search ?m ?hit"
    by (rule search_lit_skip [OF skip])
  also have "\<dots> = Some ?g" using hit by (rule search_hit)
  finally show ?thesis by (simp add: re_question_def)
qed

section \<open>Labels and the option lines\<close>

lemma starts_in_tl: "starts_in l (tl a) s \<Longrightarrow> starts_in l a s"
  by (cases a) auto

lemma hd_lines: "ls \<noteq> [] \<Longrightarrow> concat (map option_line ls) = CHR 0x0A # tl (concat (map option_line ls))"
  by (cases ls) (auto simp: option_line_def)

lemma lines_then:
  "concat (map option_line ls) @ s = [] \<and> s = []
   \<or> hd (concat (map option_line ls) @ s) = CHR 0x0A \<or> (ls = [] \<and> s \<noteq> [])"
  by (cases ls) (auto simp: option_line_def)

lemma starts_in_lines:
  assumes lit: "\<And>l x. \<not> starts_in L [CHR 0x0A, l, CHR '')'', CHR '' ''] x"
    and nl: "CHR 0x0A \<notin> set (tl L)"
    and ts: "\<forall>lt\<in>set ls. \<not> occurs L (snd lt)"
    and s: "s = [] \<or> hd s = CHR 0x0A"
  shows "\<not> starts_in L (concat (map option_line ls)) s"
  using ts
proof (induction ls)
  case Nil
  then show ?case by simp
next
  case (Cons lt ls)
  let ?rest = "concat (map option_line ls) @ s"
  have r: "?rest = [] \<or> hd ?rest \<notin> set (tl L)"
    using lines_then [of ls s] s nl by auto
  from Cons.prems have "\<not> occurs L (snd lt)" by simp
  then have t: "\<not> starts_in L (snd lt) ?rest"
    using r by (rule starts_in_field)
  have "option_line lt = [CHR 0x0A, fst lt, CHR '')'', CHR '' ''] @ snd lt"
    by (simp add: option_line_def)
  then have "\<not> starts_in L (option_line lt) ?rest"
    using lit [of "fst lt" "snd lt @ ?rest"] t by (simp only: starts_in_append) simp
  moreover have "\<not> starts_in L (concat (map option_line ls)) s"
    using Cons by simp
  ultimately show ?case by (simp add: starts_in_append)
qed

lemma line_ok_D:
  assumes "line_ok lt"
  shows "\<not> isspace (fst lt)" and "CHR 0x0A \<notin> set (snd lt)" and "has_text (snd lt)"
    and "\<not> occurs ''Correct:'' (snd lt)" and "\<not> occurs ''[Question_'' (snd lt)"
    and "\<not> occurs (CHR 0x0A # x) (snd lt)"
    and "\<not> A_to_D (fst lt) \<Longrightarrow> A_to_D c \<Longrightarrow> \<not> occurs [c, CHR '')''] (snd lt)"
proof -
  obtain l t where lt: "lt = (l, t)" by (cases lt)
  with assms show "\<not> isspace (fst lt)" "CHR 0x0A \<notin> set (snd lt)" "has_text (snd lt)"
    "\<not> occurs ''Correct:'' (snd lt)" "\<not> occurs ''[Question_'' (snd lt)"
    by (simp_all add: line_ok_def free_of_def)
  then show "\<not> occurs (CHR 0x0A # x) (snd lt)"
    using occurs_set [of "CHR 0x0A # x" "snd lt"] by auto
  show "\<not> occurs [c, CHR '')''] (snd lt)" if "\<not> A_to_D (fst lt)" "A_to_D c"
    using assms that by (auto simp: lt line_ok_def free_of_def A_to_D_def)
qed

lemma starts_in_block:
  assumes n: "\<not> occurs L n" and len: "6 < length L"
    and lv: "map lower lv = ''medium'' \<or> map lower lv = ''hard''"
    and st: "\<not> occurs L st"
    and ls: "\<forall>lt\<in>set ls. \<not> occurs L (snd lt)"
    and lits: "\<And>x. \<not> starts_in L (CHR '']'' # CHR 0x0A # ''Difficulty: '') x"
              "\<And>x. \<not> starts_in L (CHR 0x0A # ''Question: '') x"
              "\<And>x. \<not> starts_in L (CHR 0x0A # ''Options:'') x"
              "\<And>l x. \<not> starts_in L [CHR 0x0A, l, CHR '')'', CHR '' ''] x"
    and tl: "CHR '']'' \<notin> set (tl L)" "CHR 0x0A \<notin> set (tl L)"
    and s: "s = [] \<or> hd s = CHR 0x0A"
  shows "\<not> starts_in L (n @ (CHR '']'' # CHR 0x0A # ''Difficulty: '') @ lv
                         @ (CHR 0x0A # ''Question: '') @ st @ (CHR 0x0A # ''Options:'')
                         @ concat (map option_line ls)) s"
proof -
  have 1: "\<not> starts_in L n (CHR '']'' # x)" for x
    using n tl(1) by (intro starts_in_field) auto
  have 2: "\<not> starts_in L lv (CHR 0x0A # x)" for x
    using not_occurs_level [OF lv len] tl(2) by (intro starts_in_field) auto
  have 3: "\<not> starts_in L st (CHR 0x0A # x)" for x
    using st tl(2) by (intro starts_in_field) auto
  have 4: "\<not> starts_in L (concat (map option_line ls)) s"
    using lits(4) tl(2) ls s by (rule starts_in_lines)
  show ?thesis
    unfolding starts_in_append using 1 2 3 4 lits(1-3) by simp
qed

section \<open>Trimming\<close>

lemma rstrip_Nil_iff: "rstrip s = [] \<longleftrightarrow> (\<forall>c\<in>set s. isspace c)"
  by (simp add: rstrip_def dropWhile_eq_Nil_conv)

lemma rstrip_Cons:
  "rstrip (x # s) = (if rstrip s = [] \<and> isspace x then [] else x # rstrip s)"
proof (cases "\<forall>c\<in>set s. isspace c")
  case True
  then show ?thesis by (simp add: rstrip_def dropWhile_append3 dropWhile_append2)
next
  case False
  then obtain c where "c \<in> set (rev s)" "\<not> isspace c" by auto
  then have "dropWhile isspace (rev s @ [x]) = dropWhile isspace (rev s) @ [x]"
    by (rule dropWhile_append1)
  with False show ?thesis by (simp add: rstrip_def rstrip_Nil_iff [unfolded rstrip_def])
qed

lemma rstrip_Nil: "rstrip [] = []"
  by (simp add: rstrip_def)

lemma lstrip_rstrip: "dropWhile isspace (rstrip s) = rstrip (dropWhile isspace s)"
  by (induction s)
     (auto simp: rstrip_Cons rstrip_Nil_iff rstrip_Nil dropWhile_eq_Nil_conv [THEN iffD2])

lemma strip_rstrip: "strip s = rstrip (dropWhile isspace s)"
  by (simp add: strip_def rstrip_def)

lemma rstrip_rstrip: "rstrip (rstrip s) = rstrip s"
  by (simp add: rstrip_def)

lemma strip_dropWhile_rstrip: "strip (dropWhile isspace (rstrip t)) = strip t"
  by (simp add: strip_rstrip lstrip_rstrip rstrip_rstrip)

lemma strip_dropWhile: "strip (dropWhile isspace t) = strip t"
  by (simp add: strip_def)

lemma rstrip_append: "has_text t \<Longrightarrow> rstrip (a @ t) = a @ rstrip t"
proof -
  assume "has_text t"
  then obtain c where "c \<in> set (rev t)" "\<not> isspace c" by (auto simp: has_text_def)
  then have "dropWhile isspace (rev t @ rev a) = dropWhile isspace (rev t) @ rev a"
    by (rule dropWhile_append1)
  then show ?thesis by (simp add: rstrip_def)
qed

lemma rstrip_prefix: "prefix (rstrip t) t"
proof -
  have "rev t = takeWhile isspace (rev t) @ dropWhile isspace (rev t)" by simp
  then have "t = rstrip t @ rev (takeWhile isspace (rev t))"
    unfolding rstrip_def by (metis rev_append rev_rev_ident)
  then show ?thesis by (metis prefixI)
qed

lemma has_text_rstrip: "has_text t \<Longrightarrow> has_text (rstrip t)"
  by (induction t) (auto simp: rstrip_Cons has_text_def rstrip_Nil_iff)

lemma has_text_strip:
  assumes "has_text t"
  shows "strip t \<noteq> []"
proof -
  from has_text_dropWhile [OF assms] have "has_text (dropWhile isspace t)"
    unfolding has_text_def by (metis hd_in_set)
  then have "has_text (rstrip (dropWhile isspace t))" by (rule has_text_rstrip)
  then show ?thesis by (auto simp: strip_rstrip has_text_def)
qed

lemma occurs_prefix: "prefix a' a \<Longrightarrow> occurs l a' \<Longrightarrow> occurs l a"
proof (induction a arbitrary: a')
  case Nil
  then show ?case by simp
next
  case (Cons x xs)
  show ?case
  proof (cases a')
    case Nil
    with Cons.prems show ?thesis by simp
  next
    case (Cons y ys)
    with Cons.prems(1) have y: "y = x" and p: "prefix ys xs" by auto
    from Cons.prems(2) have "prefix l (y # ys) \<or> occurs l ys" by (simp add: Cons)
    then show ?thesis
    proof
      assume "prefix l (y # ys)"
      moreover have "prefix (y # ys) (x # xs)" using Cons.prems(1) by (simp add: Cons)
      ultimately have "prefix l (x # xs)" by (rule prefix_order.trans)
      then show ?thesis by simp
    next
      assume "occurs l ys"
      with Cons.IH [OF p] show ?thesis by simp
    qed
  qed
qed

lemma line_ok_rstrip: "line_ok (l, t) \<Longrightarrow> line_ok (l, rstrip t)"
  using rstrip_prefix [of t] occurs_prefix [OF rstrip_prefix, of _ t] set_mono_prefix [OF rstrip_prefix, of t]
  by (auto simp: line_ok_def free_of_def has_text_rstrip)

section \<open>The matches of \<open>findall\<close> in the option lines\<close>

lemma option_at_None:
  "(\<And>c. A_to_D c \<Longrightarrow> \<not> prefix [c, CHR '')''] s) \<Longrightarrow> option_at s = None"
  by (cases s) (auto simp: option_at_def one_def lit_def)

lemma A_to_D_not_space: "A_to_D c \<Longrightarrow> \<not> isspace c"
  by (auto simp: A_to_D_def isspace_def)

lemma blank_then_text:
  assumes t: "CHR 0x0A \<notin> set t" "has_text t"
    and r: "r = [] \<or> hd r = CHR 0x0A"
    and k: "k (dropWhile isspace t) r = Some x"
  shows "star isspace (plus_greedy not_newline k) (CHR '' '' # t @ r) = Some x"
proof -
  let ?g = "dropWhile isspace t"
  have "\<forall>c\<in>set ?g. not_newline c"
    using t(1) by (auto simp: not_newline_def dest: set_dropWhileD)
  moreover have "r = [] \<or> \<not> not_newline (hd r)" using r by (auto simp: not_newline_def)
  ultimately have g: "plus_greedy not_newline k (?g @ r) = Some x"
    using has_text_dropWhile(1) [OF t(2)] k by (intro plus_greedy_all) auto
  have eq: "CHR '' '' # t @ r = (CHR '' '' # takeWhile isspace t) @ (?g @ r)" by simp
  show ?thesis
    unfolding eq
    by (rule star_skip)
       (use has_text_dropWhile [OF t(2)] g in \<open>auto simp: isspace_def dest: set_takeWhileD\<close>)
qed

lemma option_at_line:
  assumes l: "A_to_D l" and t: "CHR 0x0A \<notin> set t" "has_text t"
    and r: "r = [] \<or> hd r = CHR 0x0A"
  shows "option_at (l # CHR '')'' # CHR '' '' # t @ r)
         = Some ((l, dropWhile isspace t), 3 + length t)"
proof -
  let ?s = "l # CHR '')'' # CHR '' '' # t @ r"
  have "star isspace (plus_greedy not_newline (\<lambda>g r'. Some ((l, g), length ?s - length r')))
          (CHR '' '' # t @ r) = Some ((l, dropWhile isspace t), 3 + length t)"
    using t r by (rule blank_then_text) simp
  then show ?thesis
    using l by (simp add: option_at_def one_def lit_def del: star.simps)
qed

lemma findall_from_skip: "findall_from (length a + n) (a @ s) = findall_from n s"
  by (induction a) auto

lemma findall_no_start:
  "(\<And>c. A_to_D c \<Longrightarrow> \<not> starts_in [c, CHR '')''] a s) \<Longrightarrow>
   findall_from 0 (a @ s) = findall_from 0 s"
proof (induction a)
  case Nil
  then show ?case by simp
next
  case (Cons x a)
  have "option_at (x # a @ s) = None"
    using Cons.prems by (intro option_at_None) auto
  moreover have "findall_from 0 (a @ s) = findall_from 0 s"
    using Cons.prems by (intro Cons.IH) auto
  ultimately show ?case by simp
qed

lemma findall_lines:
  assumes "\<forall>lt\<in>set ls. line_ok lt"
  shows "findall_from 0 (concat (map option_line ls))
         = map (\<lambda>lt. (fst lt, dropWhile isspace (snd lt))) (filter (\<lambda>lt. A_to_D (fst lt)) ls)"
  using assms
proof (induction ls)
  case Nil
  then show ?case by simp
next
  case (Cons lt ls)
  let ?R = "concat (map option_line ls)"
  let ?l = "fst lt" and ?t = "snd lt"
  from Cons.prems have ok: "line_ok lt" by simp
  have R: "?R = [] \<or> hd ?R = CHR 0x0A"
    by (cases ls) (auto simp: option_line_def)
  have IH: "findall_from 0 ?R
         = map (\<lambda>lt. (fst lt, dropWhile isspace (snd lt))) (filter (\<lambda>lt. A_to_D (fst lt)) ls)"
    using Cons by simp
  have nl: "option_at (CHR 0x0A # x) = None" for x
    by (rule option_at_None) (auto simp: A_to_D_def)
  have shape: "concat (map option_line (lt # ls)) = CHR 0x0A # ?l # CHR '')'' # CHR '' '' # ?t @ ?R"
    by (simp add: option_line_def)
  show ?case
  proof (cases "A_to_D ?l")
    case True
    have at: "option_at (?l # CHR '')'' # CHR '' '' # ?t @ ?R)
              = Some ((?l, dropWhile isspace ?t), 3 + length ?t)"
      using True line_ok_D(2,3) [OF ok] R by (rule option_at_line)
    have skip: "findall_from (length (CHR '')'' # CHR '' '' # ?t) + 0) ((CHR '')'' # CHR '' '' # ?t) @ ?R)
          = findall_from 0 ?R"
      by (rule findall_from_skip)
    have "findall_from 0 (CHR 0x0A # ?l # CHR '')'' # CHR '' '' # ?t @ ?R)
          = findall_from 0 (?l # CHR '')'' # CHR '' '' # ?t @ ?R)"
      using nl by simp
    also have "\<dots> = (?l, dropWhile isspace ?t)
                       # findall_from (2 + length ?t) (CHR '')'' # CHR '' '' # ?t @ ?R)"
      using at by simp
    also have "\<dots> = (?l, dropWhile isspace ?t) # findall_from 0 ?R"
      using skip by simp
    finally show ?thesis
      unfolding shape using True IH by simp
  next
    case False
    have t: "\<not> starts_in [c, CHR '')''] ?t ?R" if c: "A_to_D c" for c
      using line_ok_D(7) [OF ok False c]
    proof (rule starts_in_field)
      show "?R = [] \<or> hd ?R \<notin> set (tl [c, CHR '')''])" using R by auto
    qed
    have "\<not> starts_in [c, CHR '')''] (?l # CHR '')'' # CHR '' '' # ?t) ?R" if c: "A_to_D c" for c
    proof -
      from c False have "c \<noteq> ?l" by auto
      moreover from c have "c \<noteq> CHR '')''" and "c \<noteq> CHR '' ''"
        by (auto simp: A_to_D_def)
      ultimately show ?thesis using t [OF c] by simp
    qed
    then have "findall_from 0 ((?l # CHR '')'' # CHR '' '' # ?t) @ ?R) = findall_from 0 ?R"
      by (rule findall_no_start)
    then have "findall_from 0 (CHR 0x0A # ?l # CHR '')'' # CHR '' '' # ?t @ ?R) = findall_from 0 ?R"
      using nl by simp
    then show ?thesis
      unfolding shape using False IH by simp
  qed
qed

section \<open>The options and the correct letter of a block\<close>

lemma well_formed_D:
  assumes "well_formed b"
  shows "\<not> occurs ''difficulty:'' (map lower (number b))"
    and "\<not> occurs ''Question:'' (number b)" and "\<not> occurs ''Options:'' (number b)"
    and "\<not> occurs ''Correct:'' (number b)" and "\<not> occurs ''[Question_'' (number b)"
    and "map lower (level b) = ''medium'' \<or> map lower (level b) = ''hard''"
    and "has_text (stem b)" and "\<not> occurs ''Options:'' (stem b)"
    and "\<not> occurs ''Correct:'' (stem b)" and "\<not> occurs ''[Question_'' (stem b)"
    and "option_lines b \<noteq> []" and "\<forall>lt\<in>set (option_lines b). line_ok lt"
    and "correct b = Some k \<Longrightarrow> A_to_D k"
  using assms by (auto simp: well_formed_def free_of_def)

lemma re_difficulty_render:
  assumes "well_formed b"
  shows "re_difficulty (render b) = Some (level b)"
proof -
  note wf = well_formed_D [OF assms]
  have "render b = number b @ CHR '']'' # CHR 0x0A # ''Difficulty: '' @ level b
          @ CHR 0x0A # (''Question: '' @ stem b @ CHR 0x0A # ''Options:''
              @ concat (map option_line (option_lines b)) @ correct_line (correct b) @ [CHR 0x0A])"
    by (simp add: render_def)
  then show ?thesis by (simp only: re_difficulty_at [OF wf(1) wf(6)])
qed

lemma re_question_render:
  assumes "well_formed b"
  shows "re_question (render b) = Some (dropWhile isspace (stem b))"
proof -
  note wf = well_formed_D [OF assms]
  have "render b = number b @ CHR '']'' # CHR 0x0A # ''Difficulty: '' @ level b
          @ CHR 0x0A # ''Question: '' @ stem b @ CHR 0x0A # ''Options:''
          @ (concat (map option_line (option_lines b)) @ correct_line (correct b) @ [CHR 0x0A])"
    by (simp add: render_def)
  then show ?thesis by (simp only: re_question_at [OF wf(2) wf(6) wf(7) wf(8)])
qed

lemma lines_shape:
  assumes "ls \<noteq> []" and "\<forall>lt\<in>set ls. line_ok lt"
  shows "concat (map option_line ls) = CHR 0x0A # tl (concat (map option_line ls))"
    and "tl (concat (map option_line ls)) \<noteq> []"
    and "\<not> isspace (hd (tl (concat (map option_line ls))))"
  using assms by (cases ls; auto simp: option_line_def line_ok_def)+

lemma re_options_render:
  assumes "well_formed b" and k: "correct b = Some k"
  shows "re_options (render b) = Some (tl (concat (map option_line (option_lines b))))"
proof -
  note wf = well_formed_D [OF assms(1)]
  let ?OL = "concat (map option_line (option_lines b))"
  let ?G = "tl ?OL"
  let ?L = "CHR 0x0A # ''Correct:''"
  let ?rest = "[CHR '' '', k, CHR 0x0A]"
  let ?k = "plus_lazy any_char (\<lambda>g. lit ?L (\<lambda>r. Some g))"
  let ?m = "lit ''Options:'' (star isspace ?k)"
  let ?pre = "number b @ (CHR '']'' # CHR 0x0A # ''Difficulty: '') @ level b
              @ (CHR 0x0A # ''Question: '') @ stem b @ [CHR 0x0A]"
  let ?hit = "''Options:'' @ ?OL @ ?L @ ?rest"
  note sh = lines_shape [OF wf(11) wf(12)]
  have r: "render b = ?pre @ ?hit"
    by (simp add: render_def correct_line_def k)
  have skip: "\<not> starts_in ''Options:'' ?pre ?hit"
    using starts_in_field [OF wf(3), of "CHR '']'' # x" for x]
          starts_in_field [OF not_occurs_level [OF wf(6)], of "''Options:''" "CHR 0x0A # x" for x]
          starts_in_field [OF wf(8), of "CHR 0x0A # x" for x]
    by (simp add: starts_in_append)
  have "\<not> starts_in ?L ?OL (?L @ ?rest)"
    using line_ok_D(6) wf(12) by (intro starts_in_lines) auto
  then have ns: "\<not> starts_in ?L (tl ?G) (?L @ ?rest)"
    using starts_in_tl by blast
  have g: "?k (?G @ ?L @ ?rest) = Some ?G"
    by (rule plus_lazy_lit [OF sh(2) ns]) (simp_all add: any_char_def)
  have "star isspace ?k ([CHR 0x0A] @ (?G @ ?L @ ?rest)) = Some ?G"
    by (rule star_skip) (use sh g in \<open>auto simp: isspace_def\<close>)
  then have "star isspace ?k (?OL @ ?L @ ?rest) = Some ?G"
    using sh(1) by (metis append_Cons append_Nil)
  then have hit: "?m ?hit = Some ?G"
    by (simp add: lit_def del: star.simps)
  have "search ?m (?pre @ ?hit) = search ?m ?hit"
    by (rule search_lit_skip [OF skip])
  also have "\<dots> = Some ?G" using hit by (rule search_hit)
  finally show ?thesis by (simp only: re_options_def r)
qed

lemma starts_in_render_body:
  assumes wf: "well_formed b"
    and n: "\<not> occurs L (number b)" and st: "\<not> occurs L (stem b)"
    and ls: "\<forall>lt\<in>set (option_lines b). \<not> occurs L (snd lt)"
    and len: "6 < length L"
    and lits: "\<And>x. \<not> starts_in L (CHR '']'' # CHR 0x0A # ''Difficulty: '') x"
              "\<And>x. \<not> starts_in L (CHR 0x0A # ''Question: '') x"
              "\<And>x. \<not> starts_in L (CHR 0x0A # ''Options:'') x"
              "\<And>l x. \<not> starts_in L [CHR 0x0A, l, CHR '')'', CHR '' ''] x"
    and tl: "CHR '']'' \<notin> set (tl L)" "CHR 0x0A \<notin> set (tl L)"
  shows "\<not> starts_in L (number b @ (CHR '']'' # CHR 0x0A # ''Difficulty: '') @ level b
                         @ (CHR 0x0A # ''Question: '') @ stem b @ (CHR 0x0A # ''Options:'')
                         @ concat (map option_line (option_lines b))) (CHR 0x0A # s)"
  by (rule starts_in_block [OF n len well_formed_D(6) [OF wf] st ls lits tl]) simp

lemma correct_starts_in_body:
  assumes wf: "well_formed b"
  shows "\<not> starts_in ''Correct:'' (number b @ (CHR '']'' # CHR 0x0A # ''Difficulty: '') @ level b
                         @ (CHR 0x0A # ''Question: '') @ stem b @ (CHR 0x0A # ''Options:'')
                         @ concat (map option_line (option_lines b))) (CHR 0x0A # s)"
  using well_formed_D [OF wf] line_ok_D(4)
  by (intro starts_in_render_body [OF wf]) auto

lemma re_correct_render:
  assumes wf: "well_formed b" and k: "correct b = Some k"
  shows "re_correct (render b) = Some k"
proof -
  let ?m = "lit ''Correct:'' (star isspace (one A_to_D (\<lambda>c r. Some c)))"
  let ?body = "number b @ (CHR '']'' # CHR 0x0A # ''Difficulty: '') @ level b
               @ (CHR 0x0A # ''Question: '') @ stem b @ (CHR 0x0A # ''Options:'')
               @ concat (map option_line (option_lines b))"
  let ?hit = "''Correct: '' @ [k, CHR 0x0A]"
  have r: "render b = (?body @ [CHR 0x0A]) @ ?hit"
    by (simp add: render_def correct_line_def k)
  have ak: "A_to_D k" by (rule well_formed_D(13) [OF wf k])
  have skip: "\<not> starts_in ''Correct:'' (?body @ [CHR 0x0A]) ?hit"
    using correct_starts_in_body [OF wf, of ?hit] by (simp add: starts_in_append)
  have "star isspace (one A_to_D (\<lambda>c r. Some c)) ([CHR '' ''] @ [k, CHR 0x0A]) = Some k"
    by (rule star_skip) (use ak A_to_D_not_space [OF ak] in \<open>auto simp: isspace_def one_def\<close>)
  then have hit: "?m ?hit = Some k"
    by (simp add: lit_def del: star.simps)
  have "search ?m ((?body @ [CHR 0x0A]) @ ?hit) = search ?m ?hit"
    by (rule search_lit_skip [OF skip])
  also have "\<dots> = Some k" using hit by (rule search_hit)
  finally show ?thesis by (simp only: re_correct_def r)
qed

lemma re_correct_render_None:
  assumes wf: "well_formed b" and k: "correct b = None"
  shows "re_correct (render b) = None"
proof -
  let ?body = "number b @ (CHR '']'' # CHR 0x0A # ''Difficulty: '') @ level b
               @ (CHR 0x0A # ''Question: '') @ stem b @ (CHR 0x0A # ''Options:'')
               @ concat (map option_line (option_lines b))"
  have r: "render b = ?body @ [CHR 0x0A]"
    by (simp add: render_def correct_line_def k)
  have "\<not> occurs ''Correct:'' (?body @ [CHR 0x0A])"
    using correct_starts_in_body [OF wf, of "[]"] by (simp only: occurs_append) simp
  then have "search (lit ''Correct:'' (star isspace (one A_to_D (\<lambda>c r. Some c))))
               (?body @ [CHR 0x0A]) = None"
    by (rule search_lit_None)
  then show ?thesis
    by (simp only: re_correct_def r)
qed

section \<open>Blocks, the loop and the split\<close>

lemma strip_lines:
  assumes ok: "\<forall>lt\<in>set (ls @ [(l, t)]). line_ok lt"
  shows "strip (tl (concat (map option_line (ls @ [(l, t)]))))
         = tl (concat (map option_line (ls @ [(l, rstrip t)])))"
proof -
  let ?A = "concat (map option_line ls) @ [CHR 0x0A, l, CHR '')'', CHR '' '']"
  from ok have lt: "line_ok (l, t)" by simp
  have A: "concat (map option_line (ls @ [(l, x)])) = ?A @ x" for x
    by (simp add: option_line_def)
  have tlA: "tl (?A @ x) = tl ?A @ x" for x
    by (rule tl_append2) simp
  have "\<not> isspace (hd (tl (concat (map option_line (ls @ [(l, t)])))))"
    using ok by (intro lines_shape(3)) auto
  moreover have "tl (concat (map option_line (ls @ [(l, t)]))) \<noteq> []"
    using ok by (intro lines_shape(2)) auto
  ultimately have "dropWhile isspace (tl (concat (map option_line (ls @ [(l, t)]))))
        = tl (concat (map option_line (ls @ [(l, t)])))"
    by (cases "tl (concat (map option_line (ls @ [(l, t)])))") auto
  then have "strip (tl (concat (map option_line (ls @ [(l, t)])))) = rstrip (tl ?A @ t)"
    by (simp only: strip_rstrip A tlA)
  also have "\<dots> = tl ?A @ rstrip t"
    using line_ok_D(3) [OF lt] by (simp only: rstrip_append snd_conv)
  finally show ?thesis by (simp only: A tlA)
qed

lemma findall_options_lines:
  assumes "ls \<noteq> []" and "\<forall>lt\<in>set ls. line_ok lt"
  shows "findall_options (tl (concat (map option_line ls)))
         = map (\<lambda>lt. (fst lt, dropWhile isspace (snd lt))) (filter (\<lambda>lt. A_to_D (fst lt)) ls)"
proof -
  have "option_at (CHR 0x0A # x) = None" for x
    by (rule option_at_None) (auto simp: A_to_D_def)
  then have "findall_from 0 (CHR 0x0A # x) = findall_from 0 x" for x by simp
  then have "findall_from 0 (concat (map option_line ls))
             = findall_from 0 (tl (concat (map option_line ls)))"
    using lines_shape(1) [OF assms] by metis
  then show ?thesis
    using findall_lines [OF assms(2)] by (simp add: findall_options_def)
qed

lemma strip_rstrip_id: "strip (rstrip t) = strip t"
  by (simp add: strip_rstrip lstrip_rstrip rstrip_rstrip)

lemma options_of_lines:
  assumes ne: "ls \<noteq> []" and ok: "\<forall>lt\<in>set ls. line_ok lt"
  shows "map (\<lambda>opt. ([upper (fst opt)], strip (snd opt)))
             (findall_options (strip (tl (concat (map option_line ls)))))
         = map (\<lambda>lt. ([fst lt], strip (snd lt))) (filter (\<lambda>lt. A_to_D (fst lt)) ls)"
proof -
  from ne obtain ls0 l t where ls: "ls = ls0 @ [(l, t)]"
    by (metis rev_exhaust surj_pair)
  let ?ls' = "ls0 @ [(l, rstrip t)]"
  have ok': "\<forall>lt\<in>set ?ls'. line_ok lt"
    using ok line_ok_rstrip [of l t] by (auto simp: ls)
  have "findall_options (strip (tl (concat (map option_line ls))))
        = map (\<lambda>lt. (fst lt, dropWhile isspace (snd lt))) (filter (\<lambda>lt. A_to_D (fst lt)) ?ls')"
    using strip_lines [OF ok [unfolded ls]] findall_options_lines [OF _ ok']
    by (simp add: ls)
  then show ?thesis
    by (simp add: ls upper_A_to_D strip_dropWhile strip_rstrip_id)
qed

lemma extract_fields_render:
  assumes wf: "well_formed b" and k: "correct b = Some k"
  shows "extract_fields (render b) = Inr (record_of b)"
proof -
  note w = well_formed_D [OF wf]
  show ?thesis
    unfolding extract_fields_def
    by (simp add: re_difficulty_render [OF wf] re_question_render [OF wf]
          re_options_render [OF wf k] re_correct_render [OF wf k]
          options_of_lines [OF w(11) w(12)] upper_A_to_D [OF w(13) [OF k]]
          group1_def and_then_def record_of_def k strip_dropWhile)
qed

lemma card_letters:
  assumes "K \<subseteq> set ''ABCD''"
  shows "card K = 4 \<longleftrightarrow> K = set ''ABCD''"
proof
  assume "card K = 4"
  with assms show "K = set ''ABCD''" by (intro card_subset_eq) auto
next
  assume "K = set ''ABCD''"
  then show "card K = 4" by simp
qed

lemma validate_record_of:
  assumes wf: "well_formed b" and k: "correct b = Some k"
  shows "validate (record_of b) = complete b"
proof -
  let ?S = "fst ` set (option_lines b) \<inter> set ''ABCD''"
  let ?kvs = "map (\<lambda>lt. ([fst lt], strip (snd lt)))
                  (filter (\<lambda>lt. A_to_D (fst lt)) (option_lines b))"
  have "fst ` set ?kvs = (\<lambda>c. [c]) ` ?S"
    by (auto simp: A_to_D_def image_iff) force+
  moreover have "card ((\<lambda>c. [c]) ` ?S) = card ?S"
    by (intro card_image) (simp add: inj_on_def)
  ultimately have "length (options (record_of b)) = card ?S"
    by (simp add: record_of_def length_dict_of)
  moreover have "card ?S = 4 \<longleftrightarrow> ?S = set ''ABCD''"
    by (rule card_letters) simp
  moreover have "?S = set ''ABCD'' \<longleftrightarrow> set ''ABCD'' \<subseteq> fst ` set (option_lines b)"
    by blast
  ultimately have "length (options (record_of b)) = 4 \<longleftrightarrow> complete b"
    by (simp only: complete_def k) simp
  moreover have "question (record_of b) \<noteq> []"
    using has_text_strip [OF well_formed_D(7) [OF wf]] by (simp add: record_of_def)
  moreover have "answer (record_of b) \<noteq> []" by (simp add: record_of_def k)
  ultimately show ?thesis by (simp add: validate_def)
qed

lemma for_blocks_render:
  assumes wf: "well_formed b"
  shows "for_blocks (render b # blocks) qs
         = for_blocks blocks (if complete b then qs @ [record_of b] else qs)"
proof (cases "correct b")
  case None
  then have "extract_fields (render b) = Inl AttributeError"
    using re_correct_render_None [OF wf] by (intro extract_fields_AttributeError) simp
  then have "for_blocks (render b # blocks) qs = for_blocks blocks qs"
    by (rule try_block_skip)
  then show ?thesis
    using None by (simp add: complete_def del: for_blocks.simps)
next
  case (Some k)
  show ?thesis
    using extract_fields_render [OF wf Some] validate_record_of [OF wf Some]
    by (simp add: try_block_def and_then_def)
qed

lemma for_blocks_rendered:
  "\<forall>b\<in>set bs. well_formed b \<Longrightarrow>
   for_blocks (map render bs) qs = Inr (qs @ map record_of (filter complete bs))"
proof (induction bs arbitrary: qs)
  case Nil
  then show ?case by simp
next
  case (Cons b bs)
  then show ?case by (simp add: for_blocks_render del: for_blocks.simps(2))
qed

lemma render_no_delimiter:
  assumes wf: "well_formed b"
  shows "\<not> occurs ''[Question_'' (render b)"
proof -
  let ?D = "''[Question_''"
  let ?body = "number b @ (CHR '']'' # CHR 0x0A # ''Difficulty: '') @ level b
               @ (CHR 0x0A # ''Question: '') @ stem b @ (CHR 0x0A # ''Options:'')
               @ concat (map option_line (option_lines b))"
  have body: "\<not> starts_in ?D ?body (CHR 0x0A # s)" for s
    using well_formed_D [OF wf] line_ok_D(5)
    by (intro starts_in_render_body [OF wf]) auto
  show ?thesis
  proof (cases "correct b")
    case None
    then have r: "render b = ?body @ [CHR 0x0A]"
      by (simp add: render_def correct_line_def)
    show ?thesis
      using body [of "[]"] by (simp only: r occurs_append) simp
  next
    case (Some k)
    then have r: "render b = ?body @ (CHR 0x0A # ''Correct: '' @ [k, CHR 0x0A])"
      by (simp add: render_def correct_line_def)
    show ?thesis
      using body [of "''Correct: '' @ [k, CHR 0x0A]"] by (simp only: r occurs_append) simp
  qed
qed

lemma split_quiz_text:
  assumes "\<forall>b\<in>set bs. well_formed b" and "\<not> occurs ''[Question_'' pre"
  shows "split ''[Question_'' (quiz_text pre bs) = pre # map render bs"
  using assms
proof (induction bs arbitrary: pre)
  case Nil
  then show ?case by (simp add: quiz_text_def split_no_occurrence)
next
  case (Cons b bs)
  let ?D = "''[Question_''"
  have q: "quiz_text pre (b # bs) = pre @ ?D @ quiz_text (render b) bs"
    by (simp add: quiz_text_def)
  have "\<not> starts_in ?D pre (?D @ quiz_text (render b) bs)"
    using Cons.prems(2) by (rule starts_in_field) simp
  then have "split ?D (pre @ ?D @ quiz_text (render b) bs) = pre # split ?D (quiz_text (render b) bs)"
    by (intro split_first) simp_all
  moreover have "split ?D (quiz_text (render b) bs) = render b # map render bs"
    using Cons.prems(1) render_no_delimiter [of b] by (intro Cons.IH) auto
  ultimately show ?case by (simp only: q) simp
qed

lemma parse_quiz_text:
  assumes "\<forall>b\<in>set bs. well_formed b" and "\<not> occurs ''[Question_'' pre"
  shows "parse_questions (quiz_text pre bs) = Inr (take 7 (map record_of (filter complete bs)))"
  by (simp add: parse_questions_def split_quiz_text [OF assms] for_blocks_rendered [OF assms(1)]
        and_then_def)

section \<open>Texts written as the prompt asks\<close>

lemma update_new: "k \<notin> fst ` set d \<Longrightarrow> AList.update k v d = d @ [(k, v)]"
  by (induction d) auto

lemma fold_update_distinct:
  "distinct (map fst (d @ kvs)) \<Longrightarrow>
   fold (\<lambda>(k, v) d. AList.update k v d) kvs d = d @ kvs"
proof (induction kvs arbitrary: d)
  case Nil
  then show ?case by simp
next
  case (Cons kv kvs)
  obtain k v where kv: "kv = (k, v)" by (cases kv)
  from Cons.prems have "k \<notin> fst ` set d" by (auto simp: kv)
  then have u: "AList.update k v d = d @ [(k, v)]" by (rule update_new)
  from Cons.prems have "distinct (map fst ((d @ [(k, v)]) @ kvs))" by (simp add: kv)
  from Cons.IH [OF this] show ?case by (simp add: kv u)
qed

lemma dict_of_distinct_keys: "distinct (map fst kvs) \<Longrightarrow> dict_of kvs = kvs"
  using fold_update_distinct [of "[]" kvs] by (simp add: dict_of_def)

lemma lettered_record:
  assumes wf: "well_formed b" and k: "correct b = Some k"
    and l: "map fst (filter (\<lambda>lt. A_to_D (fst lt)) (option_lines b)) = ''ABCD''"
  shows "complete b"
    and "record_of b =
           \<lparr>difficulty = (if map lower (level b) = ''medium'' then ''Medium'' else ''Hard''),
            question = strip (stem b),
            options = map (\<lambda>lt. ([fst lt], strip (snd lt)))
                          (filter (\<lambda>lt. A_to_D (fst lt)) (option_lines b)),
            answer = [k]\<rparr>"
proof -
  let ?ls = "filter (\<lambda>lt. A_to_D (fst lt)) (option_lines b)"
  have "set ''ABCD'' = set (map fst ?ls)" by (simp only: l)
  also have "\<dots> \<subseteq> fst ` set (option_lines b)" by auto
  finally show "complete b" by (simp add: complete_def k)
  have "map fst (map (\<lambda>lt. ([fst lt], strip (snd lt))) ?ls) = map (\<lambda>c. [c]) (map fst ?ls)"
    by simp
  then have "distinct (map fst (map (\<lambda>lt. ([fst lt], strip (snd lt))) ?ls))"
    by (simp only: l) simp
  then have "dict_of (map (\<lambda>lt. ([fst lt], strip (snd lt))) ?ls)
             = map (\<lambda>lt. ([fst lt], strip (snd lt))) ?ls"
    by (rule dict_of_distinct_keys)
  then show "record_of b =
           \<lparr>difficulty = (if map lower (level b) = ''medium'' then ''Medium'' else ''Hard''),
            question = strip (stem b),
            options = map (\<lambda>lt. ([fst lt], strip (snd lt))) ?ls,
            answer = [k]\<rparr>"
    using capitalize_level [OF well_formed_D(6) [OF wf]]
    by (simp add: record_of_def k)
qed

lemma standard_lines:
  assumes "map fst ls = ''ABCD''"
  shows "filter (\<lambda>lt. A_to_D (fst lt)) ls = ls"
proof -
  have "\<forall>c\<in>set (map fst ls). A_to_D c" by (simp only: assms) (simp add: A_to_D_def)
  then show ?thesis by (auto intro: filter_True)
qed

lemma standard_record:
  assumes "standard b"
  shows "well_formed b" and "complete b" and "record_of b = written_record b"
proof -
  from assms obtain k where wf: "well_formed b" and k: "correct b = Some k"
    and l: "map fst (option_lines b) = ''ABCD''"
    by (auto simp: standard_def)
  note f = standard_lines [OF l]
  from l have l': "map fst (filter (\<lambda>lt. A_to_D (fst lt)) (option_lines b)) = ''ABCD''"
    by (simp only: f)
  show "well_formed b" by (rule wf)
  show "complete b" by (rule lettered_record(1) [OF wf k l'])
  show "record_of b = written_record b"
    by (simp add: lettered_record(2) [OF wf k l'] f written_record_def k)
qed

lemma parse_standard:
  assumes "\<forall>b\<in>set bs. standard b" and "\<not> occurs ''[Question_'' pre"
  shows "parse_questions (quiz_text pre bs) = Inr (take 7 (map written_record bs))"
proof -
  have "\<forall>b\<in>set bs. well_formed b" using assms(1) standard_record(1) by blast
  then have "parse_questions (quiz_text pre bs)
             = Inr (take 7 (map record_of (filter complete bs)))"
    using assms(2) by (rule parse_quiz_text)
  moreover have "filter complete bs = bs"
    using assms(1) standard_record(2) by (auto intro: filter_True)
  moreover have "map record_of bs = map written_record bs"
    using assms(1) standard_record(3) by auto
  ultimately show ?thesis by simp
qed

text \<open>
  C1. A text made of a preamble without the delimiter and of exactly seven standard blocks
  (each written as the prompt asks: a difficulty that is \<open>medium\<close> or \<open>hard\<close> in any
  case, a question text that is not blank, the four option lines A, B, C, D, the correct
  letter among A to D, and no field that contains a label or the delimiter) gives exactly
  seven records in the order of the blocks. Each record holds the difficulty capitalized,
  the question text trimmed, the four options under their letters with their texts trimmed,
  and the correct letter.
\<close>

theorem seven_blocks_round_trip:
  assumes "length bs = 7" and "\<forall>b\<in>set bs. standard b" and "\<not> occurs ''[Question_'' pre"
  shows "parse_questions (quiz_text pre bs) = Inr (map written_record bs)
         \<and> length (map written_record bs) = 7"
  using parse_standard [OF assms(2,3)] assms(1) by simp

lemma standard_samples: "\<forall>b\<in>set ten_blocks. standard b"
  by code_simp

lemma written_samples:
  "map written_record ten_blocks
   = map sample_rec [''A'', ''B'', ''C'', ''D'', ''A'', ''B'', ''C'', ''D'', ''A'', ''B'']"
  by code_simp

theorem seven_blocks_round_trip_witness:
  "parse_questions (quiz_text ''Here is the quiz.'' seven_blocks)
   = Inr (map sample_rec [''A'', ''B'', ''C'', ''D'', ''A'', ''B'', ''C''])"
proof -
  have l: "length seven_blocks = 7" by (simp add: seven_blocks_def ten_blocks_def)
  have s: "\<forall>b\<in>set seven_blocks. standard b"
    using standard_samples set_take_subset [of 7 ten_blocks] by (auto simp: seven_blocks_def)
  have p: "\<not> occurs ''[Question_'' ''Here is the quiz.''" by simp
  have "map written_record seven_blocks = take 7 (map written_record ten_blocks)"
    by (simp add: seven_blocks_def take_map)
  also have "\<dots> = map sample_rec [''A'', ''B'', ''C'', ''D'', ''A'', ''B'', ''C'']"
    by (simp only: written_samples) simp
  finally show ?thesis
    using seven_blocks_round_trip [OF l s p] by simp
qed

lemma three_lines_incomplete:
  assumes "length (option_lines b) = 3"
  shows "\<not> complete b"
proof
  assume "complete b"
  then have "set ''ABCD'' \<subseteq> fst ` set (option_lines b)" by (simp add: complete_def)
  then have "card (set ''ABCD'') \<le> card (fst ` set (option_lines b))"
    by (intro card_mono) auto
  also have "\<dots> \<le> card (set (option_lines b))" by (intro card_image_le) simp
  also have "\<dots> \<le> 3" using card_length [of "option_lines b"] assms by simp
  finally show False by simp
qed

text \<open>
  C2. Seven blocks, five of them standard and two malformed, one without the line of the
  correct letter and one with only three option lines, in any positions and in either
  order: the result is exactly the five records of the standard blocks, in their order.
  Neither malformed block adds a record.
\<close>

theorem five_of_seven:
  assumes std: "\<forall>b\<in>set (xs @ ys @ zs). standard b"
    and five: "length xs + length ys + length zs = 5"
    and wf: "well_formed m" "well_formed m'"
    and bad: "(correct m = None \<and> length (option_lines m') = 3)
              \<or> (length (option_lines m) = 3 \<and> correct m' = None)"
    and pre: "\<not> occurs ''[Question_'' pre"
  shows "parse_questions (quiz_text pre (xs @ m # ys @ m' # zs))
         = Inr (map written_record (xs @ ys @ zs))
         \<and> length (map written_record (xs @ ys @ zs)) = 5"
proof -
  let ?bs = "xs @ m # ys @ m' # zs"
  have none: "\<not> complete b" if "correct b = None" for b
    using that by (simp add: complete_def)
  from bad have inc: "\<not> complete m" "\<not> complete m'"
    using none three_lines_incomplete by blast+
  have c: "\<forall>b\<in>set (xs @ ys @ zs). complete b"
    using std standard_record(2) by blast
  then have f: "filter complete ?bs = xs @ ys @ zs"
    using inc by (auto intro: filter_True)
  have "\<forall>b\<in>set ?bs. well_formed b"
    using std standard_record(1) wf by auto
  then have "parse_questions (quiz_text pre ?bs)
             = Inr (take 7 (map record_of (filter complete ?bs)))"
    using pre by (rule parse_quiz_text)
  moreover have "map record_of (xs @ ys @ zs) = map written_record (xs @ ys @ zs)"
    using std standard_record(3) by (intro map_cong refl) blast
  ultimately show ?thesis using five by (simp only: f) simp
qed

lemma standard_three_samples:
  "\<forall>b\<in>set (take 2 ten_blocks @ take 2 (drop 3 ten_blocks) @ [ten_blocks ! 6]). standard b"
  using standard_samples set_take_subset [of 2 ten_blocks]
        set_take_subset [of 2 "drop 3 ten_blocks"] set_drop_subset [of 3 ten_blocks]
  by (auto simp: ten_blocks_def)

lemma well_formed_malformed: "well_formed no_correct" "well_formed three_options"
  by code_simp+

theorem five_of_seven_witness:
  "parse_questions (quiz_text []
      (take 2 ten_blocks @ no_correct # take 2 (drop 3 ten_blocks) @ three_options # [ten_blocks ! 6]))
   = Inr (map sample_rec [''A'', ''B'', ''D'', ''A'', ''C''])"
proof -
  have five: "length (take 2 ten_blocks) + length (take 2 (drop 3 ten_blocks))
              + length [ten_blocks ! 6] = 5"
    by (simp add: ten_blocks_def)
  have bad: "(correct no_correct = None \<and> length (option_lines three_options) = 3)
             \<or> (length (option_lines no_correct) = 3 \<and> correct three_options = None)"
    by (simp add: no_correct_def three_options_def)
  have pre: "\<not> occurs ''[Question_'' []" by simp
  have "map written_record (take 2 ten_blocks @ take 2 (drop 3 ten_blocks) @ [ten_blocks ! 6])
        = map sample_rec [''A'', ''B'', ''D'', ''A'', ''C'']"
    by code_simp
  then show ?thesis
    using five_of_seven [OF standard_three_samples five well_formed_malformed bad pre]
    by simp
qed

text \<open>
  C3. Whatever the text, at most seven records are returned; ten standard blocks give the
  records of the first seven, in the order of the blocks.
\<close>

theorem at_most_seven:
  "(\<forall>qs. parse_questions text = Inr qs \<longrightarrow> length qs \<le> 7)
   \<and> (length bs = 10 \<and> (\<forall>b\<in>set bs. standard b) \<and> \<not> occurs ''[Question_'' pre
        \<longrightarrow> parse_questions (quiz_text pre bs) = Inr (map written_record (take 7 bs))
            \<and> length (map written_record (take 7 bs)) = 7)"
proof (intro conjI allI impI)
  fix qs assume "parse_questions text = Inr qs"
  then show "length qs \<le> 7"
    by (auto simp: parse_questions_def and_then_def split: sum.splits)
next
  assume a: "length bs = 10 \<and> (\<forall>b\<in>set bs. standard b) \<and> \<not> occurs ''[Question_'' pre"
  then show "parse_questions (quiz_text pre bs) = Inr (map written_record (take 7 bs))"
    using parse_standard [of bs pre] by (simp add: take_map)
  from a show "length (map written_record (take 7 bs)) = 7" by simp
qed

theorem at_most_seven_witness:
  "length ten_blocks = 10
   \<and> parse_questions (quiz_text [] ten_blocks)
     = Inr (map sample_rec [''A'', ''B'', ''C'', ''D'', ''A'', ''B'', ''C''])"
proof -
  have l: "length ten_blocks = 10" by (simp add: ten_blocks_def)
  have pre: "\<not> occurs ''[Question_'' []" by simp
  note t = at_most_seven [of "quiz_text [] ten_blocks" ten_blocks "[]", THEN conjunct2, THEN mp,
              OF conjI [OF l conjI [OF standard_samples pre]], THEN conjunct1]
  have "map written_record (take 7 ten_blocks) = take 7 (map written_record ten_blocks)"
    by (simp add: take_map)
  also have "\<dots> = map sample_rec [''A'', ''B'', ''C'', ''D'', ''A'', ''B'', ''C'']"
    by (simp only: written_samples) simp
  finally show ?thesis using t l by simp
qed

text \<open>
  C10, as the claim states it, fails: with the extra line \<open>E) Both A) and B)\<close> after the
  lines A to D the block gives a record, but the line is not discarded: \<open>findall\<close> matches
  \<open>A)\<close> inside it, and the record holds \<open>and B)\<close> as option A.
\<close>

theorem extra_line_with_label_counterexample:
  "parse_questions (quiz_text [] [with_E_label])
   = Inr [\<lparr>difficulty = ''Medium'', question = ''What is it?'',
           options = [(''A'', ''and B)''), (''B'', ''x''), (''C'', ''y''), (''D'', ''z'')],
           answer = ''C''\<rparr>]"
  by code_simp

text \<open>
  C10, amended. In a well-formed block whose lines labelled A to D are the four lines
  A, B, C, D, a line with another label (such as a line E after them) is ignored when its
  text contains no \<open>A)\<close>, \<open>B)\<close>, \<open>C)\<close> or \<open>D)\<close>: the block gives a record whose
  options are exactly the four lines A to D with their own texts.
\<close>

theorem extra_letters_ignored:
  assumes wf: "well_formed b" and k: "correct b = Some k"
    and l: "map fst (filter (\<lambda>lt. A_to_D (fst lt)) (option_lines b)) = ''ABCD''"
    and extra: "\<forall>lt\<in>set (option_lines b).
                  A_to_D (fst lt) \<or> free_of [''A)'', ''B)'', ''C)'', ''D)''] (snd lt)"
    and pre: "\<not> occurs ''[Question_'' pre"
  shows "parse_questions (quiz_text pre [b])
         = Inr [(written_record b)\<lparr>options :=
                  map (\<lambda>lt. ([fst lt], strip (snd lt)))
                      (filter (\<lambda>lt. A_to_D (fst lt)) (option_lines b))\<rparr>]
         \<and> map fst (map (\<lambda>lt. ([fst lt], strip (snd lt)))
                        (filter (\<lambda>lt. A_to_D (fst lt)) (option_lines b)))
           = [''A'', ''B'', ''C'', ''D'']"
proof
  have "\<forall>b\<in>set [b]. well_formed b" using wf by simp
  then have "parse_questions (quiz_text pre [b])
             = Inr (take 7 (map record_of (filter complete [b])))"
    using pre by (rule parse_quiz_text)
  then show "parse_questions (quiz_text pre [b])
         = Inr [(written_record b)\<lparr>options :=
                  map (\<lambda>lt. ([fst lt], strip (snd lt)))
                      (filter (\<lambda>lt. A_to_D (fst lt)) (option_lines b))\<rparr>]"
    using lettered_record [OF wf k l] by (simp add: written_record_def k)
  have "map fst (map (\<lambda>lt. ([fst lt], strip (snd lt)))
                        (filter (\<lambda>lt. A_to_D (fst lt)) (option_lines b)))
        = map (\<lambda>c. [c]) (map fst (filter (\<lambda>lt. A_to_D (fst lt)) (option_lines b)))"
    by simp
  then show "map fst (map (\<lambda>lt. ([fst lt], strip (snd lt)))
                        (filter (\<lambda>lt. A_to_D (fst lt)) (option_lines b)))
           = [''A'', ''B'', ''C'', ''D'']"
    by (simp only: l) simp
qed

lemma well_formed_with_E: "well_formed with_E"
  by code_simp

theorem extra_letters_ignored_witness:
  "parse_questions (quiz_text [] [with_E]) = Inr [sample_rec ''C'']"
proof -
  have k: "correct with_E = Some (CHR ''C'')" by (simp add: with_E_def sample_def)
  have l: "map fst (filter (\<lambda>lt. A_to_D (fst lt)) (option_lines with_E)) = ''ABCD''"
    by (simp add: with_E_def A_to_D_def)
  have pre: "\<not> occurs ''[Question_'' []" by simp
  have extra: "\<forall>lt\<in>set (option_lines with_E).
                 A_to_D (fst lt) \<or> free_of [''A)'', ''B)'', ''C)'', ''D)''] (snd lt)"
    by code_simp
  have "(written_record with_E)\<lparr>options :=
           map (\<lambda>lt. ([fst lt], strip (snd lt)))
               (filter (\<lambda>lt. A_to_D (fst lt)) (option_lines with_E))\<rparr> = sample_rec ''C''"
    by code_simp
  then show ?thesis
    using extra_letters_ignored [OF well_formed_with_E k l extra pre] by simp
qed

section \<open>Scoring\<close>








text \<open>
  C8. Scoring never raises a division error: the division is reached only behind the test
  \<open>if st.session_state.questions and ...\<close>, which an empty question list (and
  \<open>None\<close>) fails, and then the state is left as it was.
\<close>

theorem scoring_guarded:
  "(\<exists>st'. scoring st submit = Inr st') \<and>
   (questions st = Some [] \<or> questions st = None \<longrightarrow> scoring st submit = Inr st)"
  by (auto simp: scoring_def truthy_def truediv_def and_then_def Let_def split: option.splits)

theorem scoring_guarded_witness:
  "scoring \<lparr>questions = Some [], answers = Map.empty, score = 0\<rparr> True
   = Inr \<lparr>questions = Some [], answers = Map.empty, score = 0\<rparr>"
  using scoring_guarded [of "\<lparr>questions = Some [], answers = Map.empty, score = 0\<rparr>" True]
  by simp

end
